theory Spec2Isabelle
  imports Main "HOL-Library.Char_ord" "HOL-Library.List_Lexorder" "HOL-Library.Sublist"
    "HOL-Library.Multiset"
begin

section \<open>Strings of the JavaScript runtime\<close>

text \<open>
  A JavaScript string is a sequence of UTF-16 code units. The model uses \<^typ>\<open>string\<close>,
  whose characters are the code units U+0000 to U+00FF; \<open>Char_ord\<close> orders them by code
  unit and \<open>List_Lexorder\<close> orders strings lexicographically, which is the ordinal
  comparison of two such strings. Text with code units above U+00FF is outside the model.

  \<open>isWhiteSpace\<close> is the class \<open>\s\<close> of a regular expression, which is also what
  \<open>String.prototype.trim\<close> strips: TAB, LF, VT, FF, CR, SPACE and NBSP are its members
  below U+0100.
\<close>

definition isWhiteSpace :: "char \<Rightarrow> bool" where
  "isWhiteSpace c \<longleftrightarrow>
     c = CHR 0x09 \<or> c = CHR 0x0A \<or> c = CHR 0x0B \<or> c = CHR 0x0C \<or> c = CHR 0x0D \<or>
     c = CHR 0x20 \<or> c = CHR 0xA0"

definition trim :: "string \<Rightarrow> string" where
  "trim s = rev (dropWhile isWhiteSpace (rev (dropWhile isWhiteSpace s)))"

text \<open>
  \<open>s.split(/\s+/)\<close>: the separators are the maximal runs of white space, found from
  left to right; the text before the first separator, between two separators and after
  the last one are the elements, empty ones included (a string with no separator is its
  own single element, so \<open>"".split(/\s+/)\<close> is \<open>[""]\<close>).
\<close>

function split_ws :: "string \<Rightarrow> string list" where
  "split_ws s =
     (case dropWhile (\<lambda>c. \<not> isWhiteSpace c) s of
        [] \<Rightarrow> [s]
      | _ # rest \<Rightarrow>
          takeWhile (\<lambda>c. \<not> isWhiteSpace c) s # split_ws (dropWhile isWhiteSpace rest))"
  by pat_completeness auto
termination
proof (relation "measure length")
  show "wf (measure length)" by simp
next
  fix s :: string and x rest
  assume "dropWhile (\<lambda>c. \<not> isWhiteSpace c) s = x # rest"
  then have "length rest < length s"
    by (metis length_dropWhile_le length_Cons less_Suc_eq_le not_less)
  moreover have "length (dropWhile isWhiteSpace rest) \<le> length rest"
    by (rule length_dropWhile_le)
  ultimately show "(dropWhile isWhiteSpace rest, s) \<in> measure length" by simp
qed

declare split_ws.simps [simp del]

text \<open>
  \<open>String.prototype.toLowerCase\<close> on code units below U+0100: the letters A to Z and
  the Latin-1 capitals U+00C0 to U+00DE (the multiplication sign U+00D7 apart) move up by
  32; every other code unit of that range is its own lower case.
\<close>

definition toLowerCase_char :: "char \<Rightarrow> char" where
  "toLowerCase_char c =
     (if (CHR ''A'' \<le> c \<and> c \<le> CHR ''Z'') \<or> (CHR 0xC0 \<le> c \<and> c \<le> CHR 0xDE \<and> c \<noteq> CHR 0xD7)
      then char_of (of_char c + 32 :: nat) else c)"

definition toLowerCase :: "string \<Rightarrow> string" where
  "toLowerCase s = map toLowerCase_char s"

text \<open>
  \<open>Array.prototype.sort(cmp)\<close> is a stable sort: elements that \<open>cmp\<close> calls equal keep
  their order. For a consistent comparator the result is determined by that, and it is
  what this insertion sort computes; for an inconsistent one the language leaves the
  order to the implementation, and the model still returns a permutation.
\<close>

fun insert_by :: "('a \<Rightarrow> 'a \<Rightarrow> int) \<Rightarrow> 'a \<Rightarrow> 'a list \<Rightarrow> 'a list" where
  "insert_by cmp x [] = [x]"
| "insert_by cmp x (y # ys) = (if cmp x y \<le> 0 then x # y # ys else y # insert_by cmp x ys)"

definition Array_sort :: "('a \<Rightarrow> 'a \<Rightarrow> int) \<Rightarrow> 'a list \<Rightarrow> 'a list" where
  "Array_sort cmp xs = foldr (insert_by cmp) xs []"

text \<open>
  The comparator the language asks of \<open>sort\<close> and promises of \<open>localeCompare\<close>: of two
  elements one is not after the other, and "not after" is transitive.
\<close>

definition consistent :: "('a \<Rightarrow> 'a \<Rightarrow> int) \<Rightarrow> bool" where
  "consistent cmp \<longleftrightarrow>
     (\<forall>x y. 0 < cmp x y \<longrightarrow> cmp y x \<le> 0) \<and>
     (\<forall>x y z. cmp x y \<le> 0 \<longrightarrow> cmp y z \<le> 0 \<longrightarrow> cmp x z \<le> 0)"

text \<open>
  \<open>localeCompare\<close> is the host's collation (Intl, the default locale): the repository does
  not define it, so \<open>fetchWords\<close> below takes it as a parameter. Two collations serve as
  concrete hosts. \<open>ordinalCompare\<close> compares code units. \<open>punctuationFirstCompare\<close> weighs
  every character that is neither a digit nor a letter below the digits, and the digits
  below the letters, as the Unicode root collation does for ASCII, and compares the
  strings of weights; in it \<open>":"\<close> sorts before \<open>"0"\<close> and \<open>"{"\<close> before \<open>"a"\<close>.
\<close>

definition three_way :: "'k::linorder \<Rightarrow> 'k \<Rightarrow> int" where
  "three_way x y = (if x < y then - 1 else if x = y then 0 else 1)"

definition ordinalCompare :: "string \<Rightarrow> string \<Rightarrow> int" where
  "ordinalCompare s t = three_way s t"

definition collation_weight :: "char \<Rightarrow> nat" where
  "collation_weight c =
     (if CHR ''0'' \<le> c \<and> c \<le> CHR ''9'' then 256 + of_char c
      else if (CHR ''a'' \<le> c \<and> c \<le> CHR ''z'') \<or> (CHR ''A'' \<le> c \<and> c \<le> CHR ''Z'') then 512 + of_char c
      else of_char c)"

definition punctuationFirstCompare :: "string \<Rightarrow> string \<Rightarrow> int" where
  "punctuationFirstCompare s t = three_way (map collation_weight s) (map collation_weight t)"

section \<open>The operators of the SQL statements\<close>

text \<open>
  The statements of \<open>server.js\<close> run in SQLite; what follows is the behaviour of the
  operators they use, on the text values of the model. SQLite stores text as UTF-8, in
  which a code unit below U+0080 is one byte and one from U+0080 to U+00FF is two, and it
  reads the operands of \<open>LIKE\<close> and of the \<open>NOCASE\<close> collation as C strings, which end at
  the first NUL: \<open>c_str\<close> is the part of a text that such a reader sees.
\<close>

definition c_str :: "string \<Rightarrow> string" where
  "c_str s = takeWhile (\<lambda>c. c \<noteq> CHR 0x00) s"

definition utf8_length :: "string \<Rightarrow> nat" where
  "utf8_length s = sum_list (map (\<lambda>c. if c < CHR 0x80 then 1 else 2) s)"

text \<open>
  \<open>sqlite3Tolower\<close> folds the 26 ASCII capitals and nothing else. \<open>patternCompare\<close> is
  the matching of \<open>LIKE\<close>: it compares characters through the folding; \<open>%\<close> matches any
  run of characters, the empty one too, \<open>_\<close> matches one character, and the character
  after the escape character stands for itself. An escape character that ends the
  pattern matches nothing. \<open>sql_like\<close> is the operator: the matching of the two operands
  as C strings.

  \<open>LIKE\<close> refuses a pattern of more than \<open>SQLITE_MAX_LIKE_PATTERN_LENGTH\<close> bytes (50000
  unless SQLite is built otherwise): the statement then throws at the first row it
  examines, and the function that ran it returns nothing. \<open>like_pattern_too_complex\<close>
  says when; \<open>sql_like\<close> is the answer for a pattern that is accepted.
\<close>

definition sqlite3Tolower :: "char \<Rightarrow> char" where
  "sqlite3Tolower c =
     (if CHR ''A'' \<le> c \<and> c \<le> CHR ''Z'' then char_of (of_char c + 32 :: nat) else c)"

fun patternCompare :: "char option \<Rightarrow> string \<Rightarrow> string \<Rightarrow> bool" where
  "patternCompare esc [] s = (s = [])"
| "patternCompare esc (p # ps) s =
    (if Some p = esc then
       (case ps of
          [] \<Rightarrow> False
        | q # qs \<Rightarrow>
            (case s of
               [] \<Rightarrow> False
             | c # cs \<Rightarrow> sqlite3Tolower q = sqlite3Tolower c \<and> patternCompare esc qs cs))
     else if p = CHR ''%'' then
       patternCompare esc ps s \<or>
       (case s of [] \<Rightarrow> False | c # cs \<Rightarrow> patternCompare esc (p # ps) cs)
     else if p = CHR ''_'' then
       (case s of [] \<Rightarrow> False | c # cs \<Rightarrow> patternCompare esc ps cs)
     else
       (case s of
          [] \<Rightarrow> False
        | c # cs \<Rightarrow> sqlite3Tolower p = sqlite3Tolower c \<and> patternCompare esc ps cs))"

declare patternCompare.simps [simp del]

definition sql_like :: "char option \<Rightarrow> string \<Rightarrow> string \<Rightarrow> bool" where
  "sql_like esc pat s = patternCompare esc (c_str pat) (c_str s)"

definition SQLITE_MAX_LIKE_PATTERN_LENGTH :: nat where
  "SQLITE_MAX_LIKE_PATTERN_LENGTH = 50000"

definition like_pattern_too_complex :: "string \<Rightarrow> bool" where
  "like_pattern_too_complex pat \<longleftrightarrow> SQLITE_MAX_LIKE_PATTERN_LENGTH < utf8_length pat"

text \<open>
  The collations a column can declare, and when two texts are equal under one, which is
  what \<open>=\<close> asks of a column and a parameter. \<open>BINARY\<close>, the collation of a column that
  declares none, compares the bytes. \<open>NOCASE\<close> compares the folded bytes of the two C
  strings and then the lengths in bytes. \<open>RTRIM\<close> compares the bytes without the spaces
  at the end.
\<close>

datatype collation = BINARY | NOCASE | RTRIM

definition rtrim :: "string \<Rightarrow> string" where
  "rtrim s = rev (dropWhile (\<lambda>c. c = CHR 0x20) (rev s))"

fun collation_eq :: "collation \<Rightarrow> string \<Rightarrow> string \<Rightarrow> bool" where
  "collation_eq BINARY x y \<longleftrightarrow> x = y"
| "collation_eq NOCASE x y \<longleftrightarrow>
     map sqlite3Tolower (c_str x) = map sqlite3Tolower (c_str y) \<and> utf8_length x = utf8_length y"
| "collation_eq RTRIM x y \<longleftrightarrow> rtrim x = rtrim y"

text \<open>
  \<open>ORDER BY x COLLATE NOCASE ASC\<close> orders text by the folded bytes of its C string, a
  proper prefix first, and text that agrees in those by its length in bytes. SQLite does
  not say in which order it returns rows that the collation calls equal; the model keeps
  them in the order of the table (both sorts are stable, so the second one leaves texts
  with the same C string in the order of their lengths). \<open>LIMIT 10000\<close> keeps the first
  10000 rows of the ordered result.
\<close>

definition order_by_nocase :: "string list \<Rightarrow> string list" where
  "order_by_nocase ts =
     sort_key (\<lambda>s. map sqlite3Tolower (c_str s)) (sort_key utf8_length ts)"

definition limit_10000 :: "'a list \<Rightarrow> 'a list" where
  "limit_10000 xs = take 10000 xs"

section \<open>Schema discovery and the override (server.js, lines 32 to 61)\<close>

text \<open>
  The database as \<open>discoverSchema\<close> sees it: the tables of \<open>sqlite_master\<close>, each with
  the names of its columns in their declared order (\<open>PRAGMA table_info\<close>). The first
  query keeps the tables whose name is \<open>NOT LIKE 'sqlite_%'\<close> and takes the first one in
  the order of the names.

  The second statement is the text \<open>PRAGMA table_info("name")\<close> with the name spliced
  in. A name that holds a double quote ends the quoting early, and the text is no longer
  a statement about that table: for the table \<open>a"b\<close> SQLite refuses it, \<open>prepare\<close>
  throws and the process exits. The model lets discovery fail for every such name (a name
  whose quotes, read as SQL, spell the name of another table is not followed further).
\<close>

type_synonym catalog = "(string \<times> string list) list"

record meta =
  table :: string
  wordCol :: string
  meaningCol :: string
  audioCol :: string
  wikiCol :: "string option"

datatype error = NoUserTable | StatementRejected string | TooFewColumns string

definition discoverSchema :: "catalog \<Rightarrow> error + meta" where
  "discoverSchema db =
     (case sort_key fst (filter (\<lambda>t. \<not> sql_like None ''sqlite_%'' (fst t)) db) of
        [] \<Rightarrow> Inl NoUserTable
      | (name, cols) # _ \<Rightarrow>
          if CHR 0x22 \<in> set name then Inl (StatementRejected name)
          else
            (case cols of
               wc # mc # ac # others \<Rightarrow>
                 Inr \<lparr>table = name, wordCol = wc, meaningCol = mc, audioCol = ac,
                      wikiCol = (case others of [] \<Rightarrow> None
                                 | k # _ \<Rightarrow> if k = [] then None else Some k)\<rparr>
             | _ \<Rightarrow> Inl (TooFewColumns name)))"

text \<open>
  The environment variables of the override. A variable that is not set reads
  \<open>undefined\<close> (\<open>None\<close>); \<open>undefined\<close> and the empty string are the falsy values.
\<close>

record env =
  DB_TABLE :: "string option"
  DB_WORD_COL :: "string option"
  DB_MEANING_COL :: "string option"
  DB_AUDIO_COL :: "string option"
  DB_WIKI_COL :: "string option"

definition truthy :: "string option \<Rightarrow> bool" where
  "truthy v = (case v of None \<Rightarrow> False | Some s \<Rightarrow> s \<noteq> [])"

definition or_null :: "string option \<Rightarrow> string option" where
  "or_null v = (if truthy v then v else None)"

text \<open>
  The binding the process starts with, or the error it exits on (\<open>process.exit(1)\<close> in the
  \<open>catch\<close>). Discovery runs first, whatever the environment says; the override replaces
  its result only when the four variables are all truthy.
\<close>

definition META :: "catalog \<Rightarrow> env \<Rightarrow> error + meta" where
  "META db e =
     (case discoverSchema db of
        Inl err \<Rightarrow> Inl err
      | Inr discovered \<Rightarrow>
          (case (DB_TABLE e, DB_WORD_COL e, DB_MEANING_COL e, DB_AUDIO_COL e) of
             (Some t, Some wc, Some mc, Some ac) \<Rightarrow>
               if t \<noteq> [] \<and> wc \<noteq> [] \<and> mc \<noteq> [] \<and> ac \<noteq> [] then
                 Inr \<lparr>table = t, wordCol = wc, meaningCol = mc, audioCol = ac,
                      wikiCol = or_null (DB_WIKI_COL e)\<rparr>
               else Inr discovered
           | _ \<Rightarrow> Inr discovered))"

section \<open>The term repository (server.js, lines 63 to 134)\<close>

text \<open>
  A row of the bound table, seen through the binding: the term, the definition, the audio
  reference and the link, each \<open>NULL\<close> (\<open>None\<close>) or text, the two kinds of value the
  specification gives a record. \<open>row_wiki\<close> is also \<open>None\<close> when the binding has no link
  column, where the statement selects no \<open>wiki\<close> and \<open>row.wiki\<close> reads \<open>undefined\<close>.
  Of these values \<open>NULL\<close> and the empty text are the falsy ones.
\<close>

record row =
  row_w :: "string option"
  row_m :: "string option"
  row_a :: "string option"
  row_wiki :: "string option"

text \<open>
  \<open>stmtListWords\<close> keeps the terms that are \<open>NOT NULL\<close>; \<open>stmtSearchWords\<close> keeps the
  terms that are \<open>LIKE\<close> its parameter with the backslash as escape character, and a
  \<open>NULL\<close> term is like nothing. Both order and limit the result. \<open>stmtSearchWords\<close> is
  the result for a parameter that \<open>LIKE\<close> accepts.
\<close>

definition stmtListWords :: "row list \<Rightarrow> string list" where
  "stmtListWords rows = limit_10000 (order_by_nocase (List.map_filter row_w rows))"

definition stmtSearchWords :: "row list \<Rightarrow> string \<Rightarrow> string list" where
  "stmtSearchWords rows pat =
     limit_10000 (order_by_nocase
       (filter (sql_like (Some (CHR 0x5C)) pat) (List.map_filter row_w rows)))"

text \<open>
  \<open>WHERE w = ? LIMIT 1\<close>: the first row whose term equals the parameter under the
  collation that the term column declares in the table, which the statement takes over.
  A \<open>NULL\<close> term equals nothing.
\<close>

definition stmtDetailByWord :: "collation \<Rightarrow> row list \<Rightarrow> string \<Rightarrow> row option" where
  "stmtDetailByWord coll rows t =
     find (\<lambda>r. case row_w r of None \<Rightarrow> False | Some v \<Rightarrow> collation_eq coll v t) rows"

definition escapeLike :: "string \<Rightarrow> string" where
  "escapeLike s =
     concat (map (\<lambda>c. if c = CHR ''%'' \<or> c = CHR ''_'' \<or> c = CHR 0x5C then [CHR 0x5C, c] else [c]) s)"

definition fetchWords :: "(string \<Rightarrow> string \<Rightarrow> int) \<Rightarrow> row list \<Rightarrow> string \<Rightarrow> string list" where
  "fetchWords localeCompare rows search =
     (if search \<noteq> [] then
        Array_sort (\<lambda>x y. localeCompare (toLowerCase x) (toLowerCase y))
          (filter (\<lambda>t. t \<noteq> []) (stmtSearchWords rows (''%'' @ escapeLike search @ ''%'')))
      else
        Array_sort (\<lambda>x y. localeCompare (toLowerCase x) (toLowerCase y))
          (filter (\<lambda>t. t \<noteq> []) (stmtListWords rows)))"

record detail =
  word :: "string option"
  meaning :: "string option"
  audioUrl :: "string option"
  wikiUrl :: "string option"

definition fetchDetailByWord :: "collation \<Rightarrow> row list \<Rightarrow> string \<Rightarrow> detail option" where
  "fetchDetailByWord coll rows t =
     (case stmtDetailByWord coll rows t of
        None \<Rightarrow> None
      | Some r \<Rightarrow>
          Some \<lparr>word = row_w r, meaning = row_m r, audioUrl = row_a r,
                wikiUrl = or_null (row_wiki r)\<rparr>)"

text \<open>
  What the specification calls a case-insensitive substring, with SQLite's folding: some
  stretch of \<open>t\<close> has the folded characters of \<open>q\<close>. \<open>NUL_free\<close> holds of a text with no
  NUL in it.
\<close>

definition contains_nocase :: "string \<Rightarrow> string \<Rightarrow> bool" where
  "contains_nocase q t \<longleftrightarrow> sublist (map sqlite3Tolower q) (map sqlite3Tolower t)"

definition NUL_free :: "string \<Rightarrow> bool" where
  "NUL_free s \<longleftrightarrow> CHR 0x00 \<notin> set s"

section \<open>The audio plan (the click handler of renderDetail)\<close>

text \<open>
  \<open>renderDetail\<close> draws the play button only for a truthy \<open>audioUrl\<close>, and the handler of
  the button computes \<open>audioUrls\<close> from it; with no button nothing is played, which is the
  empty plan.
\<close>

definition audioUrls :: "string \<Rightarrow> string list" where
  "audioUrls s = filter (\<lambda>url. length url > 0) (split_ws (trim s))"

definition buildAudioPlan :: "string option \<Rightarrow> string list" where
  "buildAudioPlan audioUrl' = (case audioUrl' of
      None \<Rightarrow> []
    | Some s \<Rightarrow> if s = [] then [] else audioUrls s)"

text \<open>
  The words of the specification, read directly: the tokens of a text are its maximal
  stretches without white space, in their order.
\<close>

fun tokens :: "string \<Rightarrow> string \<Rightarrow> string list" where
  "tokens cur [] = (if cur = [] then [] else [cur])"
| "tokens cur (c # cs) =
     (if isWhiteSpace c then (if cur = [] then tokens [] cs else cur # tokens [] cs)
      else tokens (cur @ [c]) cs)"

section \<open>The math stash of formatMeaning (lines 125 to 144)\<close>

text \<open>
  \<open>formatMeaning\<close> first moves the math out of the text: each formula is replaced by a
  placeholder and recorded in \<open>replacements\<close> under the number the placeholder carries.
  The model covers this part, the local variables \<open>content\<close>, \<open>replacements\<close> and
  \<open>counter\<close> as they stand when \<open>marked.parse\<close> is called, and further down the loop
  that puts the formulas back. The markdown conversion between the two is the work of a
  library that the repository does not contain; it is not modelled, and where the html is
  needed the text handed to \<open>marked.parse\<close> stands for it, placeholders in the same
  places. For the empty string and for \<open>null\<close> the function returns before any of this,
  with no math at all.
\<close>

record replacement =
  formula :: string
  isDisplay :: bool

record locals =
  content :: string
  replacements :: "replacement option list"
  counter :: nat

text \<open>
  \<open>placeholder(i)\<close> is the template literal \<open><!--knt-math-p${i}-->\<close>, the number in
  decimal digits.
\<close>

definition digit :: "nat \<Rightarrow> char" where
  "digit d = char_of (of_char (CHR ''0'') + d)"

fun decimal :: "nat \<Rightarrow> string" where
  "decimal n = (if n < 10 then [digit n] else decimal (n div 10) @ [digit (n mod 10)])"

declare decimal.simps [simp del]

definition placeholder :: "nat \<Rightarrow> string" where
  "placeholder i = ''<!--knt-math-p'' @ decimal i @ ''-->''"

text \<open>
  \<open>replacements[id] = v\<close> on a JavaScript array: it overwrites an index the array has,
  and extends the array, with holes if need be, for one it has not.
\<close>

definition array_set :: "'a option list \<Rightarrow> nat \<Rightarrow> 'a \<Rightarrow> 'a option list" where
  "array_set xs i v =
     (if i < length xs then xs[i := Some v]
      else xs @ replicate (i - length xs) None @ [Some v])"

text \<open>
  \<open>s.replace(re, f)\<close> with a global regular expression finds the matches from left to
  right, none overlapping another, calls \<open>f\<close> on each in turn and joins the results
  with the text between the matches. \<open>matches\<close> is what the search finds:
  \<open>Match u c ms\<close> is a match with capture group \<open>c\<close> after the unmatched text \<open>u\<close>,
  and \<open>End u\<close> is the text after the last match.
\<close>

datatype matches = End string | Match string string matches

text \<open>
  \<open>find_dollars\<close> splits a text at its first \<open>$$\<close>, \<open>find_dollar\<close> at its first \<open>$\<close>.

  \<open>/\$\$([\s\S]*?)\$\$/g\<close>: a match starts at the first \<open>$$\<close> and, the quantifier
  being lazy, ends with the next \<open>$$\<close> after it; with no such \<open>$$\<close> there is no match
  from there on.

  \<open>/\$([^\$]+?)\$/g\<close>: a match is a \<open>$\<close>, one or more characters other than \<open>$\<close>,
  and a \<open>$\<close>. A \<open>$\<close> that is followed at once by another starts no match and is
  skipped; the search goes on from the second one.
\<close>

fun find_dollars :: "string \<Rightarrow> (string \<times> string) option" where
  "find_dollars (c # d # cs) =
     (if c = CHR ''$'' \<and> d = CHR ''$'' then Some ([], cs)
      else map_option (\<lambda>(before, rest). (c # before, rest)) (find_dollars (d # cs)))"
| "find_dollars _ = None"

definition find_dollar :: "string \<Rightarrow> (string \<times> string) option" where
  "find_dollar s =
     (case dropWhile (\<lambda>c. c \<noteq> CHR ''$'') s of
        [] \<Rightarrow> None
      | _ # rest \<Rightarrow> Some (takeWhile (\<lambda>c. c \<noteq> CHR ''$'') s, rest))"

function displayMatches :: "string \<Rightarrow> matches" where
  "displayMatches s =
     (case find_dollars s of
        None \<Rightarrow> End s
      | Some (before, rest) \<Rightarrow>
          (case find_dollars rest of
             None \<Rightarrow> End s
           | Some (captured, rest') \<Rightarrow> Match before captured (displayMatches rest')))"
  by pat_completeness auto
termination
proof (relation "measure length")
  show "wf (measure length)" by simp
next
  have shorter: "length r < length t" if "find_dollars t = Some (b, r)" for t b r
    using that by (induction t arbitrary: b rule: find_dollars.induct) (auto split: if_splits)
  fix s :: string and x before rest y captured rest'
  assume "find_dollars s = Some x" "(before, rest) = x"
    "find_dollars rest = Some y" "(captured, rest') = y"
  then have "length rest < length s" "length rest' < length rest"
    using shorter by metis+
  then show "(rest', s) \<in> measure length" by simp
qed

function inlineMatches :: "string \<Rightarrow> string \<Rightarrow> matches" where
  "inlineMatches skipped s =
     (case find_dollar s of
        None \<Rightarrow> End (skipped @ s)
      | Some (before, rest) \<Rightarrow>
          (case find_dollar rest of
             None \<Rightarrow> End (skipped @ s)
           | Some (captured, rest') \<Rightarrow>
               if captured = [] then inlineMatches (skipped @ before @ ''$'') (CHR ''$'' # rest')
               else Match (skipped @ before) captured (inlineMatches [] rest')))"
  by pat_completeness auto
termination
proof (relation "measure (\<lambda>(skipped, s). length s)")
  show "wf (measure (\<lambda>(skipped, s). length s))" by simp
next
  have shorter: "length r < length t" if "find_dollar t = Some (b, r)" for t b r
  proof -
    from that obtain x where "dropWhile (\<lambda>c. c \<noteq> CHR ''$'') t = x # r"
      by (auto simp: find_dollar_def split: list.splits)
    then show ?thesis
      by (metis length_dropWhile_le length_Cons less_Suc_eq_le not_less)
  qed
  have shorter2: "Suc (length r') < length t"
    if "find_dollar t = Some (b, r)" "find_dollar r = Some ([], r')" for t b r r'
  proof -
    from that(2) obtain x where "dropWhile (\<lambda>c. c \<noteq> CHR ''$'') r = x # r'"
      "takeWhile (\<lambda>c. c \<noteq> CHR ''$'') r = []"
      by (auto simp: find_dollar_def split: list.splits)
    then have "length r = Suc (length r')"
      by (metis takeWhile_dropWhile_id append_Nil length_Cons)
    then show ?thesis using shorter [OF that(1)] by simp
  qed
  fix skipped s :: string and x before rest y captured rest'
  assume a: "find_dollar s = Some x" "(before, rest) = x"
    "find_dollar rest = Some y" "(captured, rest') = y"
  {
    assume "captured = []"
    then show "((skipped @ before @ ''$'', CHR ''$'' # rest'), skipped, s)
        \<in> measure (\<lambda>(skipped, s). length s)"
      using a shorter2 [of s before rest rest'] by auto
  }
  {
    assume "captured \<noteq> []"
    have "length rest < length s" "length rest' < length rest"
      using a shorter by metis+
    then show "(([], rest'), skipped, s) \<in> measure (\<lambda>(skipped, s). length s)" by simp
  }
qed

declare displayMatches.simps [simp del] inlineMatches.simps [simp del]

text \<open>
  The function both calls of \<open>replace\<close> pass: it takes the next number, records the
  trimmed formula with its mode under it, and returns the placeholder.
\<close>

definition stashMath :: "bool \<Rightarrow> string \<Rightarrow> locals \<Rightarrow> string \<times> locals" where
  "stashMath display captured st =
     (let id = counter st in
      (placeholder id,
       st\<lparr>counter := id + 1,
          replacements := array_set (replacements st) id
            \<lparr>formula = trim captured, isDisplay = display\<rparr>\<rparr>))"

fun replace_matches :: "(string \<Rightarrow> locals \<Rightarrow> string \<times> locals) \<Rightarrow> matches \<Rightarrow> locals \<Rightarrow> string \<times> locals" where
  "replace_matches f (End u) st = (u, st)"
| "replace_matches f (Match u captured ms) st =
     (case f captured st of (r, st1) \<Rightarrow>
        (case replace_matches f ms st1 of (out, st2) \<Rightarrow> (u @ r @ out, st2)))"

definition stashDisplay :: "locals \<Rightarrow> locals" where
  "stashDisplay st =
     (case replace_matches (stashMath True) (displayMatches (content st)) st of
        (out, st') \<Rightarrow> st'\<lparr>content := out\<rparr>)"

definition stashInline :: "locals \<Rightarrow> locals" where
  "stashInline st =
     (case replace_matches (stashMath False) (inlineMatches [] (content st)) st of
        (out, st') \<Rightarrow> st'\<lparr>content := out\<rparr>)"

definition formatMeaning_stash :: "string \<Rightarrow> locals" where
  "formatMeaning_stash s = stashInline (stashDisplay \<lparr>content = s, replacements = [], counter = 0\<rparr>)"

text \<open>
  The loop after the markdown conversion (lines 150 to 155) goes through \<open>replacements\<close>
  in the order of the numbers and, for each entry, replaces the first occurrence of its
  placeholder in the html by a \<open>span\<close> element that carries the formula and the mode;
  \<open>replace\<close> with a string to look for replaces the first occurrence only. These spans
  are the math of the page: \<open>renderDetail\<close> reads them in the order of the document and
  hands each to KaTeX (lines 63 to 65).

  The html is kept here as a sequence of nodes: the text, and the spans put in so far, each
  with the entry it carries. What the text of a span looks like is left out: it holds the
  formula through \<open>escapeAttribute\<close>, so no \<open><\<close> or \<open>>\<close> but its own and no placeholder
  to be found by a later turn of the loop. A \<open>$\<close> of the formula that \<open>replace\<close> reads as
  a pattern, or a \<open>&\<close> that the page reads as a character reference, changes the text of
  the attribute and not the place of the span; a formula with neither is read back from
  the attribute as it was recorded.
  \<open>mathSegments\<close> are the entries of the spans in the order of the document.
\<close>

datatype node = Text string | Span replacement

fun split_first :: "string \<Rightarrow> string \<Rightarrow> (string \<times> string) option" where
  "split_first p [] = (if p = [] then Some ([], []) else None)"
| "split_first p (c # cs) =
     (if prefix p (c # cs) then Some ([], drop (length p) (c # cs))
      else map_option (\<lambda>(pre, post). (c # pre, post)) (split_first p cs))"

fun replace_first :: "string \<Rightarrow> replacement \<Rightarrow> node list \<Rightarrow> node list" where
  "replace_first p rep [] = []"
| "replace_first p rep (Span r # ns) = Span r # replace_first p rep ns"
| "replace_first p rep (Text t # ns) =
     (case split_first p t of
        None \<Rightarrow> Text t # replace_first p rep ns
      | Some (pre, post) \<Rightarrow> Text pre # Span rep # Text post # ns)"

fun restore_from :: "nat \<Rightarrow> replacement option list \<Rightarrow> node list \<Rightarrow> node list" where
  "restore_from i [] html = html"
| "restore_from i (r # rs) html =
     restore_from (Suc i) rs
       (case r of None \<Rightarrow> html | Some rep \<Rightarrow> replace_first (placeholder i) rep html)"

definition restore :: "replacement option list \<Rightarrow> string \<Rightarrow> node list" where
  "restore reps html = restore_from 0 reps [Text html]"

definition mathSegments :: "node list \<Rightarrow> replacement list" where
  "mathSegments html = concat (map (\<lambda>n. case n of Text t \<Rightarrow> [] | Span r \<Rightarrow> [r]) html)"

text \<open>
  To count placeholders: \<open>occurrences p t\<close> is the number of places of \<open>t\<close> at which
  \<open>p\<close> stands, and a text is \<open>unmarked\<close> when the opening of a placeholder stands
  nowhere in it. \<open>texts\<close> and \<open>captures\<close> are the two parts of a search result,
  and \<open>is_digit\<close> holds of the ten decimal digits.
\<close>

definition is_digit :: "char \<Rightarrow> bool" where
  "is_digit c \<longleftrightarrow> c \<in> set ''0123456789''"

fun occurrences :: "string \<Rightarrow> string \<Rightarrow> nat" where
  "occurrences p [] = (if p = [] then 1 else 0)"
| "occurrences p (c # cs) = (if prefix p (c # cs) then 1 else 0) + occurrences p cs"

definition marker_prefix :: string where
  "marker_prefix = ''<!--knt-math-p''"

definition unmarked :: "string \<Rightarrow> bool" where
  "unmarked t \<longleftrightarrow> \<not> sublist marker_prefix t"

fun texts :: "matches \<Rightarrow> string list" where
  "texts (End u) = [u]"
| "texts (Match u c ms) = u # texts ms"

fun captures :: "matches \<Rightarrow> string list" where
  "captures (End u) = []"
| "captures (Match u c ms) = c # captures ms"

section \<open>The audio plan: proofs\<close>

lemma tokens_nonws_append:
  "list_all (\<lambda>c. \<not> isWhiteSpace c) u \<Longrightarrow> tokens cur (u @ v) = tokens (cur @ u) v"
  by (induction u arbitrary: cur) auto

lemma tokens_all_ws:
  "list_all isWhiteSpace v \<Longrightarrow> tokens cur v = (if cur = [] then [] else [cur])"
  by (induction v arbitrary: cur) auto

lemma tokens_dropWhile_ws: "tokens [] (dropWhile isWhiteSpace v) = tokens [] v"
  by (induction v) auto

lemma tokens_append_ws:
  "list_all isWhiteSpace v \<Longrightarrow> tokens cur (u @ v) = tokens cur u"
  by (induction u arbitrary: cur) (auto simp: tokens_all_ws)

lemma tokens_trim: "tokens [] (trim s) = tokens [] s"
proof -
  let ?t = "dropWhile isWhiteSpace s"
  have split: "?t = trim s @ rev (takeWhile isWhiteSpace (rev ?t))"
    unfolding trim_def by (metis rev_append rev_rev_ident takeWhile_dropWhile_id)
  have ws: "list_all isWhiteSpace (rev (takeWhile isWhiteSpace (rev ?t)))"
    by (simp add: list_all_iff) (meson set_takeWhileD)
  have "tokens [] ?t = tokens [] (trim s)"
    using tokens_append_ws [OF ws, of "[]" "trim s"] split by simp
  then show ?thesis by (simp add: tokens_dropWhile_ws)
qed

lemma split_ws_tokens: "filter (\<lambda>u. u \<noteq> []) (split_ws s) = tokens [] s"
proof (induction s rule: split_ws.induct)
  case (1 s)
  let ?tw = "takeWhile (\<lambda>c. \<not> isWhiteSpace c) s"
  let ?dw = "dropWhile (\<lambda>c. \<not> isWhiteSpace c) s"
  have nonws: "list_all (\<lambda>c. \<not> isWhiteSpace c) ?tw"
    by (auto simp: list_all_iff dest: set_takeWhileD)
  have s: "s = ?tw @ ?dw" by simp
  show ?case
  proof (cases ?dw)
    case Nil
    then have "list_all (\<lambda>c. \<not> isWhiteSpace c) s" by (simp add: list_all_iff)
    from tokens_nonws_append [OF this, of "[]" "[]"] have "tokens [] s = tokens s []" by simp
    moreover have "split_ws s = [s]"
      by (subst split_ws.simps, subst Nil, simp)
    ultimately show ?thesis by simp
  next
    case (Cons x rest)
    then have x: "isWhiteSpace x" by (metis hd_dropWhile list.distinct(1) list.sel(1))
    have "tokens [] s = tokens ?tw (x # rest)"
      using tokens_nonws_append [OF nonws, of "[]" "x # rest"] s Cons by simp
    also have "\<dots> = (if ?tw = [] then tokens [] rest else ?tw # tokens [] rest)"
      using x by simp
    also have "tokens [] rest = filter (\<lambda>u. u \<noteq> []) (split_ws (dropWhile isWhiteSpace rest))"
      using "1.IH" [OF Cons] by (simp add: tokens_dropWhile_ws)
    finally have "tokens [] s = filter (\<lambda>u. u \<noteq> [])
        (?tw # split_ws (dropWhile isWhiteSpace rest))" by simp
    moreover have "split_ws s = ?tw # split_ws (dropWhile isWhiteSpace rest)"
      by (subst split_ws.simps, subst Cons, simp)
    ultimately show ?thesis by simp
  qed
qed

lemma audioUrls_tokens: "audioUrls s = tokens [] s"
  by (simp add: audioUrls_def split_ws_tokens tokens_trim)

lemma tokens_wellformed:
  "list_all (\<lambda>c. \<not> isWhiteSpace c) cur \<Longrightarrow>
   list_all (\<lambda>t. t \<noteq> [] \<and> list_all (\<lambda>c. \<not> isWhiteSpace c) t) (tokens cur s)"
  by (induction cur s rule: tokens.induct) auto

lemma tokens_concat: "concat (tokens cur s) = cur @ filter (\<lambda>c. \<not> isWhiteSpace c) s"
  by (induction cur s rule: tokens.induct) auto

text \<open>
  Claim C9. \<open>buildAudioPlan\<close> returns the tokens of its input: the maximal stretches
  without white space, in their order. So every entry of the plan is non-empty and free
  of white space, and the entries together are the input without its white space.
  \<open>"a.mp3  b.mp3   c.mp3"\<close> gives the three names; \<open>null\<close>, the empty string and
  \<open>"   "\<close> give the empty plan.
\<close>

theorem buildAudioPlan_splits_on_whitespace:
  "buildAudioPlan (Some s) = tokens [] s
   \<and> list_all (\<lambda>t. t \<noteq> [] \<and> list_all (\<lambda>c. \<not> isWhiteSpace c) t) (buildAudioPlan (Some s))
   \<and> concat (buildAudioPlan (Some s)) = filter (\<lambda>c. \<not> isWhiteSpace c) s
   \<and> buildAudioPlan (Some ''a.mp3  b.mp3   c.mp3'') = [''a.mp3'', ''b.mp3'', ''c.mp3'']
   \<and> buildAudioPlan None = []
   \<and> buildAudioPlan (Some []) = []
   \<and> buildAudioPlan (Some ''   '') = []"
proof -
  have eq: "buildAudioPlan (Some s) = tokens [] s" for s
    by (simp add: buildAudioPlan_def audioUrls_tokens)
  have wf: "list_all (\<lambda>t. t \<noteq> [] \<and> list_all (\<lambda>c. \<not> isWhiteSpace c) t) (tokens [] s)"
    by (rule tokens_wellformed) simp
  have cc: "concat (tokens [] s) = filter (\<lambda>c. \<not> isWhiteSpace c) s"
    by (simp add: tokens_concat)
  have e1: "tokens [] ''a.mp3  b.mp3   c.mp3'' = [''a.mp3'', ''b.mp3'', ''c.mp3'']"
    by (simp add: isWhiteSpace_def)
  have e2: "tokens [] ''   '' = []"
    by (simp add: isWhiteSpace_def)
  show ?thesis
    using wf cc e1 e2 by (simp add: eq) (simp add: buildAudioPlan_def)
qed

section \<open>Sorting and collations: proofs\<close>

lemma mset_insert_by: "mset (insert_by cmp x ys) = add_mset x (mset ys)"
  by (induction ys) auto

lemma mset_Array_sort: "mset (Array_sort cmp xs) = mset xs"
  unfolding Array_sort_def by (induction xs) (auto simp: mset_insert_by)

lemma set_Array_sort: "set (Array_sort cmp xs) = set xs"
  by (metis mset_Array_sort set_mset_mset)

lemma length_Array_sort: "length (Array_sort cmp xs) = length xs"
  by (metis mset_Array_sort size_mset)

lemma sorted_insert_by:
  assumes "consistent cmp" and "sorted_wrt (\<lambda>x y. cmp x y \<le> 0) ys"
  shows "sorted_wrt (\<lambda>x y. cmp x y \<le> 0) (insert_by cmp x ys)"
  using assms(2)
proof (induction ys)
  case Nil
  then show ?case by simp
next
  case (Cons y ys)
  have tot: "0 < cmp x y \<Longrightarrow> cmp y x \<le> 0"
    using assms(1) by (auto simp: consistent_def)
  have tr: "\<And>a b c. cmp a b \<le> 0 \<Longrightarrow> cmp b c \<le> 0 \<Longrightarrow> cmp a c \<le> 0"
    using assms(1) unfolding consistent_def by blast
  show ?case
  proof (cases "cmp x y \<le> 0")
    case True
    then show ?thesis using Cons.prems tr by auto
  next
    case False
    then have "cmp y x \<le> 0" using tot by simp
    moreover have "sorted_wrt (\<lambda>x y. cmp x y \<le> 0) (insert_by cmp x ys)"
      using Cons by simp
    moreover have "set (insert_by cmp x ys) = insert x (set ys)"
      by (metis mset_insert_by set_mset_add_mset_insert set_mset_mset)
    ultimately show ?thesis using False Cons.prems by auto
  qed
qed

lemma sorted_Array_sort:
  "consistent cmp \<Longrightarrow> sorted_wrt (\<lambda>x y. cmp x y \<le> 0) (Array_sort cmp xs)"
  unfolding Array_sort_def by (induction xs) (auto intro: sorted_insert_by)

lemma consistent_on_lower:
  "consistent lc \<Longrightarrow> consistent (\<lambda>x y. lc (toLowerCase x) (toLowerCase y))"
  unfolding consistent_def by blast

lemma consistent_three_way: "consistent (\<lambda>x y. three_way (f x) (f y))"
  unfolding consistent_def three_way_def by (auto split: if_splits)

lemma consistent_ordinalCompare: "consistent ordinalCompare"
  using consistent_three_way [of "\<lambda>x. x"] unfolding ordinalCompare_def by simp

lemma consistent_punctuationFirstCompare: "consistent punctuationFirstCompare"
  using consistent_three_way [of "map collation_weight"] unfolding punctuationFirstCompare_def by simp

section \<open>The search pattern: proofs\<close>

lemma patternCompare_percent:
  assumes "esc \<noteq> Some (CHR ''%'')"
  shows "patternCompare esc (CHR ''%'' # ps) t \<longleftrightarrow> (\<exists>u v. t = u @ v \<and> patternCompare esc ps v)"
proof (induction t)
  case Nil
  then show ?case using assms by (auto simp: patternCompare.simps(2) [of esc "CHR ''%''"])
next
  case (Cons c cs)
  have "patternCompare esc (CHR ''%'' # ps) (c # cs) \<longleftrightarrow>
        patternCompare esc ps (c # cs) \<or> patternCompare esc (CHR ''%'' # ps) cs"
    using assms by (auto simp: patternCompare.simps(2) [of esc "CHR ''%''"])
  also have "\<dots> \<longleftrightarrow> patternCompare esc ps (c # cs) \<or> (\<exists>u v. cs = u @ v \<and> patternCompare esc ps v)"
    using Cons.IH by simp
  also have "\<dots> \<longleftrightarrow> (\<exists>u v. c # cs = u @ v \<and> patternCompare esc ps v)"
  proof
    assume "patternCompare esc ps (c # cs) \<or> (\<exists>u v. cs = u @ v \<and> patternCompare esc ps v)"
    then show "\<exists>u v. c # cs = u @ v \<and> patternCompare esc ps v"
    proof
      assume "patternCompare esc ps (c # cs)"
      then have "c # cs = [] @ (c # cs) \<and> patternCompare esc ps (c # cs)" by simp
      then show ?thesis by blast
    next
      assume "\<exists>u v. cs = u @ v \<and> patternCompare esc ps v"
      then obtain u v where "cs = u @ v" "patternCompare esc ps v" by blast
      then have "c # cs = (c # u) @ v \<and> patternCompare esc ps v" by simp
      then show ?thesis by blast
    qed
  next
    assume "\<exists>u v. c # cs = u @ v \<and> patternCompare esc ps v"
    then obtain u v where uv: "c # cs = u @ v" "patternCompare esc ps v" by blast
    show "patternCompare esc ps (c # cs) \<or> (\<exists>u v. cs = u @ v \<and> patternCompare esc ps v)"
    proof (cases u)
      case Nil
      then show ?thesis using uv by simp
    next
      case (Cons a u')
      then have "cs = u' @ v" using uv by simp
      then show ?thesis using uv by blast
    qed
  qed
  finally show ?case .
qed

lemma patternCompare_escaped:
  "patternCompare (Some (CHR 0x5C)) (escapeLike q @ rest) t \<longleftrightarrow>
     (\<exists>u v. t = u @ v \<and> map sqlite3Tolower u = map sqlite3Tolower q \<and>
            patternCompare (Some (CHR 0x5C)) rest v)"
proof (induction q arbitrary: t)
  case Nil
  then show ?case by (simp add: escapeLike_def)
next
  case (Cons c q)
  have step: "patternCompare (Some (CHR 0x5C)) (escapeLike (c # q) @ rest) t \<longleftrightarrow>
      (case t of [] \<Rightarrow> False
       | d # ds \<Rightarrow> sqlite3Tolower c = sqlite3Tolower d \<and>
                  patternCompare (Some (CHR 0x5C)) (escapeLike q @ rest) ds)"
    by (cases t) (auto simp: escapeLike_def patternCompare.simps(2))
  show ?case
  proof (cases t)
    case Nil
    then show ?thesis using step by simp
  next
    case (Cons d ds)
    have "patternCompare (Some (CHR 0x5C)) (escapeLike (c # q) @ rest) t \<longleftrightarrow>
        sqlite3Tolower c = sqlite3Tolower d \<and>
        (\<exists>u v. ds = u @ v \<and> map sqlite3Tolower u = map sqlite3Tolower q \<and>
               patternCompare (Some (CHR 0x5C)) rest v)"
      using step Cons Cons.IH [of ds] by simp
    also have "\<dots> \<longleftrightarrow> (\<exists>u v. d # ds = u @ v \<and>
        map sqlite3Tolower u = map sqlite3Tolower (c # q) \<and> patternCompare (Some (CHR 0x5C)) rest v)"
    proof
      assume "sqlite3Tolower c = sqlite3Tolower d \<and>
        (\<exists>u v. ds = u @ v \<and> map sqlite3Tolower u = map sqlite3Tolower q \<and>
               patternCompare (Some (CHR 0x5C)) rest v)"
      then obtain u v where "sqlite3Tolower c = sqlite3Tolower d" "ds = u @ v"
        "map sqlite3Tolower u = map sqlite3Tolower q" "patternCompare (Some (CHR 0x5C)) rest v"
        by blast
      then have "d # ds = (d # u) @ v \<and> map sqlite3Tolower (d # u) = map sqlite3Tolower (c # q)
        \<and> patternCompare (Some (CHR 0x5C)) rest v" by simp
      then show "\<exists>u v. d # ds = u @ v \<and>
        map sqlite3Tolower u = map sqlite3Tolower (c # q) \<and> patternCompare (Some (CHR 0x5C)) rest v"
        by blast
    next
      assume "\<exists>u v. d # ds = u @ v \<and>
        map sqlite3Tolower u = map sqlite3Tolower (c # q) \<and> patternCompare (Some (CHR 0x5C)) rest v"
      then obtain u v where uv: "d # ds = u @ v"
        "map sqlite3Tolower u = map sqlite3Tolower (c # q)" "patternCompare (Some (CHR 0x5C)) rest v"
        by blast
      from uv(2) obtain a u' where u: "u = a # u'" by (cases u) auto
      with uv have "a = d" "ds = u' @ v" "sqlite3Tolower c = sqlite3Tolower d"
        "map sqlite3Tolower u' = map sqlite3Tolower q" by auto
      then show "sqlite3Tolower c = sqlite3Tolower d \<and>
        (\<exists>u v. ds = u @ v \<and> map sqlite3Tolower u = map sqlite3Tolower q \<and>
               patternCompare (Some (CHR 0x5C)) rest v)" using uv(3) by blast
    qed
    finally show ?thesis using Cons by simp
  qed
qed

lemma sublist_map_iff:
  "sublist (map f q) (map f t) \<longleftrightarrow> (\<exists>u m v. t = u @ m @ v \<and> map f m = map f q)"
proof
  assume "sublist (map f q) (map f t)"
  then obtain ps ss where "map f t = ps @ map f q @ ss" by (auto simp: sublist_def)
  then have "\<exists>u r. t = u @ r \<and> map f r = map f q @ ss"
    by (metis map_eq_append_conv)
  then obtain u r where t: "t = u @ r" and r: "map f r = map f q @ ss" by blast
  from r have "\<exists>m v. r = m @ v \<and> map f m = map f q"
    by (metis map_eq_append_conv)
  then obtain m v where "r = m @ v" "map f m = map f q" by blast
  with t show "\<exists>u m v. t = u @ m @ v \<and> map f m = map f q" by blast
next
  assume "\<exists>u m v. t = u @ m @ v \<and> map f m = map f q"
  then obtain u m v where "t = u @ m @ v" "map f m = map f q" by blast
  then have "map f t = map f u @ map f q @ map f v" by simp
  then show "sublist (map f q) (map f t)" unfolding sublist_def by blast
qed

lemma patternCompare_search:
  "patternCompare (Some (CHR 0x5C)) (''%'' @ escapeLike q @ ''%'') t \<longleftrightarrow> contains_nocase q t"
proof -
  have any: "patternCompare (Some (CHR 0x5C)) ''%'' v" for v
    using patternCompare_percent [of "Some (CHR 0x5C)" "[]" v] by (auto simp: patternCompare.simps(1))
  have "patternCompare (Some (CHR 0x5C)) (''%'' @ escapeLike q @ ''%'') t \<longleftrightarrow>
      (\<exists>u v. t = u @ v \<and> patternCompare (Some (CHR 0x5C)) (escapeLike q @ ''%'') v)"
    using patternCompare_percent [of "Some (CHR 0x5C)" "escapeLike q @ ''%''" t] by simp
  also have "\<dots> \<longleftrightarrow> (\<exists>u m v. t = u @ m @ v \<and> map sqlite3Tolower m = map sqlite3Tolower q)"
    using any by (simp add: patternCompare_escaped) blast
  finally show ?thesis by (simp add: contains_nocase_def sublist_map_iff)
qed

lemma c_str_NUL_free: "NUL_free s \<Longrightarrow> c_str s = s"
  by (auto simp: c_str_def NUL_free_def)

lemma NUL_free_pattern: "NUL_free q \<Longrightarrow> NUL_free (''%'' @ escapeLike q @ ''%'')"
  by (auto simp: NUL_free_def escapeLike_def split: if_splits)

lemma search_pattern_iff:
  "NUL_free q \<Longrightarrow>
   sql_like (Some (CHR 0x5C)) (''%'' @ escapeLike q @ ''%'') t \<longleftrightarrow> contains_nocase q (c_str t)"
  unfolding sql_like_def
  by (simp only: c_str_NUL_free [OF NUL_free_pattern] patternCompare_search)

lemma contains_nocase_c_str: "contains_nocase q (c_str t) \<Longrightarrow> contains_nocase q t"
proof -
  assume "contains_nocase q (c_str t)"
  then have "sublist (map sqlite3Tolower q) (map sqlite3Tolower (c_str t))"
    by (simp add: contains_nocase_def)
  moreover have "prefix (map sqlite3Tolower (c_str t)) (map sqlite3Tolower t)"
    unfolding c_str_def by (intro map_mono_prefix takeWhile_is_prefix)
  ultimately show ?thesis
    unfolding contains_nocase_def
    by (meson prefix_imp_sublist sublist_order.order_trans)
qed

section \<open>The schema override\<close>

text \<open>
  Claim C1 as the specification states it asks for a \<open>SchemaError\<close> when the table,
  term and definition variables are set and the audio variable is not. The code starts
  with the discovered binding instead.
\<close>

theorem META_partial_override_counterexample:
  "META [(''terms'', [''word'', ''meaning'', ''audio''])]
     \<lparr>DB_TABLE = Some ''glossary'', DB_WORD_COL = Some ''term'',
      DB_MEANING_COL = Some ''definition'', DB_AUDIO_COL = None, DB_WIKI_COL = None\<rparr>
   = Inr \<lparr>table = ''terms'', wordCol = ''word'', meaningCol = ''meaning'',
          audioCol = ''audio'', wikiCol = None\<rparr>"
  by code_simp

text \<open>
  Claim C1, as amended. The override is all or nothing, and it is never an error: when
  discovery fails the process exits whatever the environment says; when discovery
  succeeds and the table, term and definition variables are set but the audio variable is
  not, the override is ignored and the process starts with the discovered binding; when
  the four are set and the link variable is not, the binding is the override with
  \<open>wikiCol = null\<close>.
\<close>

theorem META_override:
  "(\<forall>err. discoverSchema db = Inl err \<longrightarrow> META db e = Inl err) \<and>
   (\<forall>d. discoverSchema db = Inr d \<longrightarrow>
      truthy (DB_TABLE e) \<and> truthy (DB_WORD_COL e) \<and> truthy (DB_MEANING_COL e) \<and>
      \<not> truthy (DB_AUDIO_COL e) \<longrightarrow> META db e = Inr d) \<and>
   (\<forall>d t wc mc ac. discoverSchema db = Inr d \<longrightarrow>
      DB_TABLE e = Some t \<and> t \<noteq> [] \<and> DB_WORD_COL e = Some wc \<and> wc \<noteq> [] \<and>
      DB_MEANING_COL e = Some mc \<and> mc \<noteq> [] \<and> DB_AUDIO_COL e = Some ac \<and> ac \<noteq> [] \<and>
      \<not> truthy (DB_WIKI_COL e) \<longrightarrow>
      META db e = Inr \<lparr>table = t, wordCol = wc, meaningCol = mc, audioCol = ac, wikiCol = None\<rparr>)"
  by (auto simp: META_def truthy_def or_null_def split: option.splits sum.splits)

theorem META_override_witness:
  "discoverSchema [(''terms'', [''word'', ''meaning'', ''audio''])]
     = Inr \<lparr>table = ''terms'', wordCol = ''word'', meaningCol = ''meaning'',
            audioCol = ''audio'', wikiCol = None\<rparr>
   \<and> discoverSchema [(''sqlite_sequence'', [''name'', ''seq''])] = Inl NoUserTable
   \<and> META [(''sqlite_sequence'', [''name'', ''seq''])]
       \<lparr>DB_TABLE = Some ''glossary'', DB_WORD_COL = Some ''term'',
        DB_MEANING_COL = Some ''definition'', DB_AUDIO_COL = Some ''sound'',
        DB_WIKI_COL = None\<rparr> = Inl NoUserTable
   \<and> META [(''terms'', [''word'', ''meaning'', ''audio''])]
       \<lparr>DB_TABLE = Some ''glossary'', DB_WORD_COL = Some ''term'',
        DB_MEANING_COL = Some ''definition'', DB_AUDIO_COL = Some [], DB_WIKI_COL = None\<rparr>
     = Inr \<lparr>table = ''terms'', wordCol = ''word'', meaningCol = ''meaning'',
            audioCol = ''audio'', wikiCol = None\<rparr>
   \<and> META [(''terms'', [''word'', ''meaning'', ''audio''])]
       \<lparr>DB_TABLE = Some ''glossary'', DB_WORD_COL = Some ''term'',
        DB_MEANING_COL = Some ''definition'', DB_AUDIO_COL = Some ''sound'',
        DB_WIKI_COL = None\<rparr>
     = Inr \<lparr>table = ''glossary'', wordCol = ''term'', meaningCol = ''definition'',
            audioCol = ''sound'', wikiCol = None\<rparr>"
proof -
  let ?db = "[(''terms'', [''word'', ''meaning'', ''audio''])]"
  let ?sys = "[(''sqlite_sequence'', [''name'', ''seq''])]"
  let ?d = "\<lparr>table = ''terms'', wordCol = ''word'', meaningCol = ''meaning'',
            audioCol = ''audio'', wikiCol = None\<rparr>"
  let ?full = "\<lparr>DB_TABLE = Some ''glossary'', DB_WORD_COL = Some ''term'',
        DB_MEANING_COL = Some ''definition'', DB_AUDIO_COL = Some ''sound'',
        DB_WIKI_COL = None\<rparr>"
  let ?part = "\<lparr>DB_TABLE = Some ''glossary'', DB_WORD_COL = Some ''term'',
        DB_MEANING_COL = Some ''definition'', DB_AUDIO_COL = Some [], DB_WIKI_COL = None\<rparr>"
  have d: "discoverSchema ?db = Inr ?d" by code_simp
  have n: "discoverSchema ?sys = Inl NoUserTable" by code_simp
  have a: "META ?sys ?full = Inl NoUserTable"
    using META_override [of ?sys ?full] n by blast
  have b: "META ?db ?part = Inr ?d"
    using META_override [of ?db ?part] d by (simp add: truthy_def)
  have c: "META ?db ?full = Inr \<lparr>table = ''glossary'', wordCol = ''term'',
      meaningCol = ''definition'', audioCol = ''sound'', wikiCol = None\<rparr>"
    using META_override [of ?db ?full] d by (simp add: truthy_def)
  show ?thesis using d n a b c by simp
qed

section \<open>The term repository: lookup and listing\<close>

text \<open>
  Claim C7 as the specification states it makes the lookup exact and case-sensitive. The
  statement compares under the collation of the term column: in a table that declares the
  column \<open>COLLATE NOCASE\<close>, asking for FORCE finds the row of Force.
\<close>

theorem fetchDetailByWord_collation_counterexample:
  "fetchDetailByWord NOCASE
     [\<lparr>row_w = Some ''Force'', row_m = Some ''F = ma'', row_a = None,
       row_wiki = Some ''https://en.wikipedia.org/wiki/Force''\<rparr>]
     ''FORCE''
   = Some \<lparr>word = Some ''Force'', meaning = Some ''F = ma'', audioUrl = None,
           wikiUrl = Some ''https://en.wikipedia.org/wiki/Force''\<rparr>"
  by code_simp

text \<open>
  Claim C7, as amended. \<open>fetchDetailByWord\<close> matches the term against the term column
  under the collation the column declares. It answers \<open>null\<close> exactly when no row has a
  term equal to it under that collation; otherwise it answers one record, made of a row
  with such a term: the term, definition and audio reference as the row has them, and the
  link of the row, or \<open>null\<close> for a link that is null or empty. Under \<open>BINARY\<close>, the
  collation of a column that declares none, equal means the same code units: the answer
  is \<open>null\<close> exactly when no row has the term itself, and the word of a record is the
  term asked for.
\<close>

theorem fetchDetailByWord_by_collation:
  "(fetchDetailByWord coll rows t = None \<longleftrightarrow>
      \<not> (\<exists>r \<in> set rows. \<exists>v. row_w r = Some v \<and> collation_eq coll v t)) \<and>
   (\<forall>d. fetchDetailByWord coll rows t = Some d \<longrightarrow>
      (\<exists>r \<in> set rows. \<exists>v. row_w r = Some v \<and> collation_eq coll v t \<and>
         d = \<lparr>word = Some v, meaning = row_m r, audioUrl = row_a r,
              wikiUrl = (case row_wiki r of None \<Rightarrow> None
                         | Some l \<Rightarrow> if l = [] then None else Some l)\<rparr>)) \<and>
   (fetchDetailByWord BINARY rows t = None \<longleftrightarrow> Some t \<notin> row_w ` set rows) \<and>
   (\<forall>d. fetchDetailByWord BINARY rows t = Some d \<longrightarrow> word d = Some t)"
proof -
  let ?P = "\<lambda>c r. case row_w r of None \<Rightarrow> False | Some v \<Rightarrow> collation_eq c v t"
  have P: "?P c r \<longleftrightarrow> (\<exists>v. row_w r = Some v \<and> collation_eq c v t)" for c r
    by (cases "row_w r") auto
  have none: "fetchDetailByWord c rows t = None \<longleftrightarrow>
      \<not> (\<exists>r \<in> set rows. \<exists>v. row_w r = Some v \<and> collation_eq c v t)" for c
  proof -
    have "fetchDetailByWord c rows t = None \<longleftrightarrow> find (?P c) rows = None"
      by (simp add: fetchDetailByWord_def stmtDetailByWord_def split: option.splits)
    also have "\<dots> \<longleftrightarrow> \<not> (\<exists>r. r \<in> set rows \<and> ?P c r)"
      by (rule find_None_iff)
    finally show ?thesis using P by blast
  qed
  have some: "\<exists>r \<in> set rows. \<exists>v. row_w r = Some v \<and> collation_eq c v t \<and>
         d = \<lparr>word = Some v, meaning = row_m r, audioUrl = row_a r,
              wikiUrl = (case row_wiki r of None \<Rightarrow> None
                         | Some l \<Rightarrow> if l = [] then None else Some l)\<rparr>"
    if "fetchDetailByWord c rows t = Some d" for c d
  proof -
    from that obtain r where r: "find (?P c) rows = Some r"
      and d: "d = \<lparr>word = row_w r, meaning = row_m r, audioUrl = row_a r,
              wikiUrl = or_null (row_wiki r)\<rparr>"
      by (auto simp: fetchDetailByWord_def stmtDetailByWord_def split: option.splits)
    from r have in_rows: "r \<in> set rows" and "?P c r"
      by (auto simp: find_Some_iff)
    then obtain v where v: "row_w r = Some v" "collation_eq c v t" using P by blast
    have "or_null (row_wiki r) =
        (case row_wiki r of None \<Rightarrow> None | Some l \<Rightarrow> if l = [] then None else Some l)"
      by (simp add: or_null_def truthy_def split: option.splits)
    then show ?thesis using in_rows v d by auto
  qed
  have bin_none: "fetchDetailByWord BINARY rows t = None \<longleftrightarrow> Some t \<notin> row_w ` set rows"
    using none [of BINARY] by (auto simp: image_iff)
  have bin_some: "word d = Some t" if "fetchDetailByWord BINARY rows t = Some d" for d
    using some [OF that] by auto
  show ?thesis using none [of coll] some [of coll] bin_none bin_some by blast
qed

theorem fetchDetailByWord_by_collation_witness:
  "fetchDetailByWord BINARY
     [\<lparr>row_w = Some ''force'', row_m = Some ''push or pull'', row_a = None, row_wiki = Some []\<rparr>,
      \<lparr>row_w = Some ''Force'', row_m = Some ''F = ma'', row_a = Some ''f.mp3'',
       row_wiki = Some ''https://en.wikipedia.org/wiki/Force''\<rparr>]
     ''Force''
   = Some \<lparr>word = Some ''Force'', meaning = Some ''F = ma'', audioUrl = Some ''f.mp3'',
           wikiUrl = Some ''https://en.wikipedia.org/wiki/Force''\<rparr>
   \<and> word \<lparr>word = Some ''Force'', meaning = Some ''F = ma'', audioUrl = Some ''f.mp3'',
           wikiUrl = Some ''https://en.wikipedia.org/wiki/Force''\<rparr> = Some ''Force''
   \<and> fetchDetailByWord BINARY
     [\<lparr>row_w = Some ''force'', row_m = Some ''push or pull'', row_a = None, row_wiki = Some []\<rparr>,
      \<lparr>row_w = Some ''Force'', row_m = Some ''F = ma'', row_a = Some ''f.mp3'',
       row_wiki = Some ''https://en.wikipedia.org/wiki/Force''\<rparr>]
     ''force''
   = Some \<lparr>word = Some ''force'', meaning = Some ''push or pull'', audioUrl = None,
           wikiUrl = None\<rparr>
   \<and> Some ''FORCE'' \<notin> row_w ` set
     [\<lparr>row_w = Some ''force'', row_m = Some ''push or pull'', row_a = None, row_wiki = Some []\<rparr>,
      \<lparr>row_w = Some ''Force'', row_m = Some ''F = ma'', row_a = Some ''f.mp3'',
       row_wiki = Some ''https://en.wikipedia.org/wiki/Force''\<rparr>]
   \<and> fetchDetailByWord BINARY
     [\<lparr>row_w = Some ''force'', row_m = Some ''push or pull'', row_a = None, row_wiki = Some []\<rparr>,
      \<lparr>row_w = Some ''Force'', row_m = Some ''F = ma'', row_a = Some ''f.mp3'',
       row_wiki = Some ''https://en.wikipedia.org/wiki/Force''\<rparr>]
     ''FORCE'' = None"
proof -
  let ?rows = "[\<lparr>row_w = Some ''force'', row_m = Some ''push or pull'', row_a = None, row_wiki = Some []\<rparr>,
      \<lparr>row_w = Some ''Force'', row_m = Some ''F = ma'', row_a = Some ''f.mp3'',
       row_wiki = Some ''https://en.wikipedia.org/wiki/Force''\<rparr>]"
  have ev2: "fetchDetailByWord BINARY ?rows ''Force''
      = Some \<lparr>word = Some ''Force'', meaning = Some ''F = ma'', audioUrl = Some ''f.mp3'',
           wikiUrl = Some ''https://en.wikipedia.org/wiki/Force''\<rparr>"
    by code_simp
  have ev1: "fetchDetailByWord BINARY ?rows ''force''
      = Some \<lparr>word = Some ''force'', meaning = Some ''push or pull'', audioUrl = None,
           wikiUrl = None\<rparr>"
    by code_simp
  have absent: "Some ''FORCE'' \<notin> row_w ` set ?rows" by simp
  note found = fetchDetailByWord_by_collation [of BINARY ?rows "''Force''"]
  note missing = fetchDetailByWord_by_collation [of BINARY ?rows "''FORCE''"]
  have w: "word \<lparr>word = Some ''Force'', meaning = Some ''F = ma'', audioUrl = Some ''f.mp3'',
           wikiUrl = Some ''https://en.wikipedia.org/wiki/Force''\<rparr> = Some ''Force''"
    by (rule found [THEN conjunct2, THEN conjunct2, THEN conjunct2, THEN spec, THEN mp, OF ev2])
  have none: "fetchDetailByWord BINARY ?rows ''FORCE'' = None"
    by (rule missing [THEN conjunct2, THEN conjunct2, THEN conjunct1, THEN iffD2, OF absent])
  show ?thesis
    by (intro conjI) (rule ev2, rule w, rule ev1, rule absent, rule none)
qed

text \<open>
  Claim C10. The empty string is never among the terms \<open>fetchWords\<close> returns, with a
  search text or without one, whatever the collation of the host.
\<close>

theorem fetchWords_no_empty_term: "[] \<notin> set (fetchWords localeCompare rows search)"
  by (simp add: fetchWords_def set_Array_sort)

section \<open>The term repository: search and order\<close>

lemma set_map_filter_row_w: "set (List.map_filter row_w rows) = {t. Some t \<in> row_w ` set rows}"
  by (induction rows) (auto simp: map_filter_simps image_iff split: option.splits)

lemma search_pattern_Cons_iff:
  "NUL_free q \<Longrightarrow>
   sql_like (Some (CHR 0x5C)) (CHR ''%'' # escapeLike q @ ''%'') t \<longleftrightarrow> contains_nocase q (c_str t)"
  using search_pattern_iff [of q t] by simp

lemma set_limit_order: "set (limit_10000 (order_by_nocase xs)) \<subseteq> set xs"
  unfolding limit_10000_def order_by_nocase_def
  by (rule order_trans [OF set_take_subset]) simp

lemma set_stmtSearchWords:
  "set (stmtSearchWords rows pat) \<subseteq> {t. Some t \<in> row_w ` set rows \<and> sql_like (Some (CHR 0x5C)) pat t}"
  unfolding stmtSearchWords_def
  using set_limit_order [of "filter (sql_like (Some (CHR 0x5C)) pat) (List.map_filter row_w rows)"]
  by (auto simp: set_map_filter_row_w)

lemma set_stmtListWords:
  "set (stmtListWords rows) \<subseteq> {t. Some t \<in> row_w ` set rows}"
  unfolding stmtListWords_def
  using set_limit_order [of "List.map_filter row_w rows"]
  by (auto simp: set_map_filter_row_w)

lemma fetchWords_sorted_by:
  "consistent lc \<Longrightarrow>
   sorted_wrt (\<lambda>x y. lc (toLowerCase x) (toLowerCase y) \<le> 0) (fetchWords lc rows search)"
  unfolding fetchWords_def
  using sorted_Array_sort [OF consistent_on_lower, of lc] by simp

lemma fetchWords_length: "length (fetchWords lc rows search) \<le> 10000"
proof -
  have "length (filter P (limit_10000 xs)) \<le> 10000" for P and xs :: "string list"
    using length_filter_le [of P "take 10000 xs"] by (simp add: limit_10000_def)
  then show ?thesis
    by (simp add: fetchWords_def length_Array_sort stmtSearchWords_def stmtListWords_def)
qed

lemma sqlite3Tolower_special:
  "c = CHR ''%'' \<or> c = CHR ''_'' \<or> c = CHR 0x5C \<Longrightarrow> sqlite3Tolower d = c \<longleftrightarrow> d = c"
proof -
  have "take_bit 8 (of_char d + 32 :: nat) = of_char d + 32" if "of_char d \<le> (90 :: nat)"
    using that by (simp add: take_bit_nat_eq_self)
  then show "c = CHR ''%'' \<or> c = CHR ''_'' \<or> c = CHR 0x5C \<Longrightarrow> sqlite3Tolower d = c \<longleftrightarrow> d = c"
    unfolding sqlite3Tolower_def less_eq_char_def by (auto simp: char_of_eq_iff)
qed

lemma contains_nocase_special:
  assumes "contains_nocase q t" and "c \<in> set q"
    and "c = CHR ''%'' \<or> c = CHR ''_'' \<or> c = CHR 0x5C"
  shows "c \<in> set t"
proof -
  have "set (map sqlite3Tolower q) \<subseteq> set (map sqlite3Tolower t)"
    using assms(1) unfolding contains_nocase_def by (rule set_mono_sublist)
  moreover have "sqlite3Tolower c = c" using sqlite3Tolower_special [OF assms(3), of c] by simp
  ultimately have "c \<in> sqlite3Tolower ` set t" using assms(2) by force
  then obtain d where "d \<in> set t" "sqlite3Tolower d = c" by auto
  then show ?thesis using sqlite3Tolower_special [OF assms(3), of d] by simp
qed

lemma contains_nocase_nonempty: "q \<noteq> [] \<Longrightarrow> contains_nocase q t \<Longrightarrow> t \<noteq> []"
  by (auto simp: contains_nocase_def)

text \<open>
  Claim C4 as the specification states it holds of every search text that is not empty.
  \<open>LIKE\<close> reads its pattern as a C string: for the search text a, NUL, b the pattern ends
  after the a, and the terms that end in a are returned, none of which contains the text.
\<close>

theorem fetchWords_search_NUL_counterexample:
  "fetchWords ordinalCompare
     [\<lparr>row_w = Some ''Delta'', row_m = None, row_a = None, row_wiki = None\<rparr>,
      \<lparr>row_w = Some ''gear'', row_m = None, row_a = None, row_wiki = None\<rparr>,
      \<lparr>row_w = Some ''banana'', row_m = None, row_a = None, row_wiki = None\<rparr>]
     [CHR ''a'', CHR 0x00, CHR ''b'']
     = [''banana'', ''Delta'']
   \<and> \<not> contains_nocase [CHR ''a'', CHR 0x00, CHR ''b''] ''banana''
   \<and> \<not> contains_nocase [CHR ''a'', CHR 0x00, CHR ''b''] ''Delta''"
  by code_simp

text \<open>
  Claim C4, as amended. For a search text that is not empty, holds no NUL and gives a
  pattern that \<open>LIKE\<close> accepts, every term \<open>fetchWords\<close> returns contains the text as a
  substring, letter case ignored, and the terms are in ascending order of their
  lower-case forms under the comparison \<open>sort\<close> is given, the collation of the host (a
  consistent comparator).
\<close>

theorem fetchWords_search_sound:
  assumes "search \<noteq> []" and "NUL_free search"
    and "\<not> like_pattern_too_complex (''%'' @ escapeLike search @ ''%'')"
  shows "list_all (contains_nocase search) (fetchWords lc rows search) \<and>
     (consistent lc \<longrightarrow>
        sorted_wrt (\<lambda>x y. lc (toLowerCase x) (toLowerCase y) \<le> 0) (fetchWords lc rows search))"
proof -
  have "set (fetchWords lc rows search) \<subseteq>
      set (stmtSearchWords rows (''%'' @ escapeLike search @ ''%''))"
    using assms(1) by (auto simp: fetchWords_def set_Array_sort)
  then have "\<forall>t \<in> set (fetchWords lc rows search). contains_nocase search (c_str t)"
    using set_stmtSearchWords [of rows "''%'' @ escapeLike search @ ''%''"]
    by (auto simp: search_pattern_Cons_iff [OF assms(2)])
  then have "\<forall>t \<in> set (fetchWords lc rows search). contains_nocase search t"
    using contains_nocase_c_str by blast
  then show ?thesis using fetchWords_sorted_by [of lc rows search]
    by (simp add: list_all_iff)
qed

theorem fetchWords_search_sound_witness:
  "NUL_free ''for''
   \<and> \<not> like_pattern_too_complex (''%'' @ escapeLike ''for'' @ ''%'')
   \<and> fetchWords ordinalCompare
     [\<lparr>row_w = Some ''Force'', row_m = None, row_a = None, row_wiki = None\<rparr>,
      \<lparr>row_w = None, row_m = None, row_a = None, row_wiki = None\<rparr>,
      \<lparr>row_w = Some ''gear'', row_m = None, row_a = None, row_wiki = None\<rparr>,
      \<lparr>row_w = Some ''Conformal'', row_m = None, row_a = None, row_wiki = None\<rparr>,
      \<lparr>row_w = Some ''FORGE'', row_m = None, row_a = None, row_wiki = None\<rparr>] ''for''
     = [''Conformal'', ''Force'', ''FORGE'']
   \<and> consistent ordinalCompare
   \<and> list_all (contains_nocase ''for'') [''Conformal'', ''Force'', ''FORGE'']
   \<and> sorted_wrt (\<lambda>x y. ordinalCompare (toLowerCase x) (toLowerCase y) \<le> 0)
        [''Conformal'', ''Force'', ''FORGE'']"
proof -
  let ?rows = "[\<lparr>row_w = Some ''Force'', row_m = None, row_a = None, row_wiki = None\<rparr>,
      \<lparr>row_w = None, row_m = None, row_a = None, row_wiki = None\<rparr>,
      \<lparr>row_w = Some ''gear'', row_m = None, row_a = None, row_wiki = None\<rparr>,
      \<lparr>row_w = Some ''Conformal'', row_m = None, row_a = None, row_wiki = None\<rparr>,
      \<lparr>row_w = Some ''FORGE'', row_m = None, row_a = None, row_wiki = None\<rparr>]"
  have ev: "fetchWords ordinalCompare ?rows ''for'' = [''Conformal'', ''Force'', ''FORGE'']"
    by code_simp
  have ne: "''for'' \<noteq> []" by simp
  have nf: "NUL_free ''for''" by (simp add: NUL_free_def)
  have ok: "\<not> like_pattern_too_complex (''%'' @ escapeLike ''for'' @ ''%'')" by code_simp
  show ?thesis
    using fetchWords_search_sound [OF ne nf ok, of ordinalCompare ?rows]
      consistent_ordinalCompare nf ok
    unfolding ev by blast
qed

text \<open>
  Claim C5 as the specification states it holds of every search text with a \<open>%\<close>, a
  \<open>_\<close> or a backslash in it. For the search text NUL, \<open>%\<close> the pattern that \<open>LIKE\<close> reads
  ends before the NUL and is the single \<open>%\<close> that \<open>fetchWords\<close> puts in front, so every
  term is returned, with or without a \<open>%\<close> in it.
\<close>

theorem fetchWords_search_wildcard_counterexample:
  "fetchWords ordinalCompare
     [\<lparr>row_w = Some ''gear'', row_m = None, row_a = None, row_wiki = None\<rparr>,
      \<lparr>row_w = Some ''abc'', row_m = None, row_a = None, row_wiki = None\<rparr>]
     [CHR 0x00, CHR ''%'']
     = [''abc'', ''gear'']
   \<and> CHR ''%'' \<notin> set ''abc'' \<and> CHR ''%'' \<notin> set ''gear''
   \<and> \<not> contains_nocase [CHR 0x00, CHR ''%''] ''abc''"
  by code_simp

text \<open>
  Claim C5, as amended. A search text that is not empty, holds no NUL and gives a pattern
  that \<open>LIKE\<close> accepts is a literal: the pattern built from it with \<open>escapeLike\<close>
  matches a term exactly when the term, as far as its first NUL if it has one, contains
  the text as a substring, letter case ignored. So every term returned is a term of the
  table that contains the text, with each \<open>%\<close>, \<open>_\<close> and backslash of the text present in
  it as that character; and when at most 10000 terms match, the terms returned are all of
  them.
  Searching for \<open>50%\<close> finds "50% off" and not "1500 rpm", which the unescaped pattern
  would match.
\<close>

theorem fetchWords_search_literal:
  assumes "search \<noteq> []" and "NUL_free search"
    and "\<not> like_pattern_too_complex (''%'' @ escapeLike search @ ''%'')"
  shows "(\<forall>t. sql_like (Some (CHR 0x5C)) (''%'' @ escapeLike search @ ''%'') t \<longleftrightarrow>
            contains_nocase search (c_str t)) \<and>
     (\<forall>t \<in> set (fetchWords lc rows search). Some t \<in> row_w ` set rows \<and>
        contains_nocase search t \<and>
        (\<forall>c \<in> set search. c = CHR ''%'' \<or> c = CHR ''_'' \<or> c = CHR 0x5C \<longrightarrow> c \<in> set t)) \<and>
     (length (filter (\<lambda>t. contains_nocase search (c_str t)) (List.map_filter row_w rows))
        \<le> 10000 \<longrightarrow>
        set (fetchWords lc rows search) =
          {t. Some t \<in> row_w ` set rows \<and> contains_nocase search (c_str t)})"
proof -
  let ?pat = "''%'' @ escapeLike search @ ''%''"
  let ?match = "\<lambda>t. contains_nocase search (c_str t)"
  have eq: "sql_like (Some (CHR 0x5C)) (CHR ''%'' # escapeLike search @ ''%'') = ?match"
    by (rule ext) (rule search_pattern_Cons_iff [OF assms(2)])
  have fw: "set (fetchWords lc rows search) = {t \<in> set (stmtSearchWords rows ?pat). t \<noteq> []}"
    using assms(1) by (auto simp: fetchWords_def set_Array_sort)
  have sub: "set (fetchWords lc rows search) \<subseteq>
      {t. Some t \<in> row_w ` set rows \<and> ?match t}"
    using fw set_stmtSearchWords [of rows ?pat]
    by (auto simp: search_pattern_Cons_iff [OF assms(2)])
  have a: "\<forall>t \<in> set (fetchWords lc rows search). Some t \<in> row_w ` set rows \<and>
        contains_nocase search t \<and>
        (\<forall>c \<in> set search. c = CHR ''%'' \<or> c = CHR ''_'' \<or> c = CHR 0x5C \<longrightarrow> c \<in> set t)"
  proof
    fix t assume "t \<in> set (fetchWords lc rows search)"
    then have t: "Some t \<in> row_w ` set rows" "?match t" using sub by auto
    then have "contains_nocase search t" using contains_nocase_c_str by blast
    then show "Some t \<in> row_w ` set rows \<and> contains_nocase search t \<and>
        (\<forall>c \<in> set search. c = CHR ''%'' \<or> c = CHR ''_'' \<or> c = CHR 0x5C \<longrightarrow> c \<in> set t)"
      using t(1) contains_nocase_special by blast
  qed
  have b: "set (fetchWords lc rows search) =
          {t. Some t \<in> row_w ` set rows \<and> ?match t}"
    if "length (filter ?match (List.map_filter row_w rows)) \<le> 10000"
  proof -
    have "length (order_by_nocase (filter ?match (List.map_filter row_w rows))) \<le> 10000"
      using that by (simp add: order_by_nocase_def)
    then have "set (stmtSearchWords rows ?pat) =
        set (order_by_nocase (filter ?match (List.map_filter row_w rows)))"
      by (simp add: stmtSearchWords_def limit_10000_def eq)
    then have "set (stmtSearchWords rows ?pat) =
        {t. Some t \<in> row_w ` set rows \<and> ?match t}"
      by (auto simp: order_by_nocase_def set_map_filter_row_w)
    moreover have "t \<noteq> []" if "?match t" for t
      using contains_nocase_nonempty [OF assms(1) contains_nocase_c_str [OF that]] .
    ultimately show ?thesis using fw by auto
  qed
  show ?thesis using a b search_pattern_iff [OF assms(2)] by blast
qed

theorem fetchWords_search_literal_witness:
  "NUL_free ''50%''
   \<and> \<not> like_pattern_too_complex (''%'' @ escapeLike ''50%'' @ ''%'')
   \<and> fetchWords ordinalCompare
     [\<lparr>row_w = Some ''abc'', row_m = None, row_a = None, row_wiki = None\<rparr>,
      \<lparr>row_w = Some ''50% off'', row_m = None, row_a = None, row_wiki = None\<rparr>,
      \<lparr>row_w = Some ''1500 rpm'', row_m = None, row_a = None, row_wiki = None\<rparr>] ''50%''
     = [''50% off'']
   \<and> \<not> sql_like (Some (CHR 0x5C)) (''%'' @ escapeLike ''50%'' @ ''%'') ''1500 rpm''
   \<and> sql_like (Some (CHR 0x5C)) ''%50%%'' ''1500 rpm''
   \<and> contains_nocase ''50%'' ''50% off''
   \<and> CHR ''%'' \<in> set ''50% off''
   \<and> set (fetchWords ordinalCompare
     [\<lparr>row_w = Some ''abc'', row_m = None, row_a = None, row_wiki = None\<rparr>,
      \<lparr>row_w = Some ''50% off'', row_m = None, row_a = None, row_wiki = None\<rparr>,
      \<lparr>row_w = Some ''1500 rpm'', row_m = None, row_a = None, row_wiki = None\<rparr>] ''50%'')
     = {t. Some t \<in> row_w ` set
     [\<lparr>row_w = Some ''abc'', row_m = None, row_a = None, row_wiki = None\<rparr>,
      \<lparr>row_w = Some ''50% off'', row_m = None, row_a = None, row_wiki = None\<rparr>,
      \<lparr>row_w = Some ''1500 rpm'', row_m = None, row_a = None, row_wiki = None\<rparr>]
        \<and> contains_nocase ''50%'' (c_str t)}"
proof -
  let ?rows = "[\<lparr>row_w = Some ''abc'', row_m = None, row_a = None, row_wiki = None\<rparr>,
      \<lparr>row_w = Some ''50% off'', row_m = None, row_a = None, row_wiki = None\<rparr>,
      \<lparr>row_w = Some ''1500 rpm'', row_m = None, row_a = None, row_wiki = None\<rparr>]"
  have ev: "fetchWords ordinalCompare ?rows ''50%'' = [''50% off'']"
    by code_simp
  have ne: "''50%'' \<noteq> []" by simp
  have nf: "NUL_free ''50%''" by (simp add: NUL_free_def)
  have ok: "\<not> like_pattern_too_complex (''%'' @ escapeLike ''50%'' @ ''%'')" by code_simp
  have few: "length (filter (\<lambda>t. contains_nocase ''50%'' (c_str t))
      (List.map_filter row_w ?rows)) \<le> 10000"
    by code_simp
  have no: "\<not> contains_nocase ''50%'' (c_str ''1500 rpm'')" by code_simp
  have wild: "sql_like (Some (CHR 0x5C)) ''%50%%'' ''1500 rpm''" by code_simp
  note inst = fetchWords_search_literal [OF ne nf ok, of ordinalCompare ?rows]
  have a: "\<not> sql_like (Some (CHR 0x5C)) (''%'' @ escapeLike ''50%'' @ ''%'') ''1500 rpm''"
    using inst no by blast
  have m: "''50% off'' \<in> set (fetchWords ordinalCompare ?rows ''50%'')"
    unfolding ev by simp
  have b: "contains_nocase ''50%'' ''50% off'' \<and> CHR ''%'' \<in> set ''50% off''"
    using inst m by fastforce
  have c: "set (fetchWords ordinalCompare ?rows ''50%'') =
      {t. Some t \<in> row_w ` set ?rows \<and> contains_nocase ''50%'' (c_str t)}"
    using inst few by blast
  show ?thesis using nf ok ev a wild b c by blast
qed

text \<open>
  Claim C6 as the specification states it has the empty search return every term that
  is not null. A term that is the empty string is not null, and it is not returned.
\<close>

theorem fetchWords_omits_empty_term_counterexample:
  "Some [] \<in> set (map row_w
     [\<lparr>row_w = Some ''gear'', row_m = None, row_a = None, row_wiki = None\<rparr>,
      \<lparr>row_w = Some [], row_m = None, row_a = None, row_wiki = None\<rparr>,
      \<lparr>row_w = None, row_m = None, row_a = None, row_wiki = None\<rparr>,
      \<lparr>row_w = Some ''Axle'', row_m = None, row_a = None, row_wiki = None\<rparr>])
   \<and> fetchWords ordinalCompare
     [\<lparr>row_w = Some ''gear'', row_m = None, row_a = None, row_wiki = None\<rparr>,
      \<lparr>row_w = Some [], row_m = None, row_a = None, row_wiki = None\<rparr>,
      \<lparr>row_w = None, row_m = None, row_a = None, row_wiki = None\<rparr>,
      \<lparr>row_w = Some ''Axle'', row_m = None, row_a = None, row_wiki = None\<rparr>] []
     = [''Axle'', ''gear'']"
  by code_simp

text \<open>
  Claim C6, as amended. With no search text \<open>fetchWords\<close> returns at most 10000 terms,
  each a term of the table that is neither null nor the empty string, in ascending order
  of their lower-case forms under the collation of the host; when the table has at most
  10000 terms that are not null, it returns every one of them that is not the empty
  string, as often as the table has it.
\<close>

theorem fetchWords_list_all:
  "length (fetchWords lc rows []) \<le> 10000 \<and>
   set (fetchWords lc rows []) \<subseteq> {t. Some t \<in> row_w ` set rows \<and> t \<noteq> []} \<and>
   (consistent lc \<longrightarrow>
      sorted_wrt (\<lambda>x y. lc (toLowerCase x) (toLowerCase y) \<le> 0) (fetchWords lc rows [])) \<and>
   (length (List.map_filter row_w rows) \<le> 10000 \<longrightarrow>
      mset (fetchWords lc rows []) = mset (filter (\<lambda>t. t \<noteq> []) (List.map_filter row_w rows)))"
proof -
  have sub: "set (fetchWords lc rows []) \<subseteq> {t. Some t \<in> row_w ` set rows \<and> t \<noteq> []}"
    using set_stmtListWords [of rows] by (auto simp: fetchWords_def set_Array_sort)
  have all: "mset (fetchWords lc rows []) =
      mset (filter (\<lambda>t. t \<noteq> []) (List.map_filter row_w rows))"
    if "length (List.map_filter row_w rows) \<le> 10000"
    using that
    by (simp add: fetchWords_def mset_Array_sort stmtListWords_def limit_10000_def
        order_by_nocase_def)
  show ?thesis
    using fetchWords_length [of lc rows "[]"] sub fetchWords_sorted_by [of lc rows "[]"] all
    by blast
qed

theorem fetchWords_list_all_witness:
  "consistent ordinalCompare
   \<and> length (List.map_filter row_w
     [\<lparr>row_w = Some ''gear'', row_m = None, row_a = None, row_wiki = None\<rparr>,
      \<lparr>row_w = Some [], row_m = None, row_a = None, row_wiki = None\<rparr>,
      \<lparr>row_w = None, row_m = None, row_a = None, row_wiki = None\<rparr>,
      \<lparr>row_w = Some ''Axle'', row_m = None, row_a = None, row_wiki = None\<rparr>]) \<le> 10000
   \<and> sorted_wrt (\<lambda>x y. ordinalCompare (toLowerCase x) (toLowerCase y) \<le> 0)
       (fetchWords ordinalCompare
     [\<lparr>row_w = Some ''gear'', row_m = None, row_a = None, row_wiki = None\<rparr>,
      \<lparr>row_w = Some [], row_m = None, row_a = None, row_wiki = None\<rparr>,
      \<lparr>row_w = None, row_m = None, row_a = None, row_wiki = None\<rparr>,
      \<lparr>row_w = Some ''Axle'', row_m = None, row_a = None, row_wiki = None\<rparr>] [])
   \<and> mset (fetchWords ordinalCompare
     [\<lparr>row_w = Some ''gear'', row_m = None, row_a = None, row_wiki = None\<rparr>,
      \<lparr>row_w = Some [], row_m = None, row_a = None, row_wiki = None\<rparr>,
      \<lparr>row_w = None, row_m = None, row_a = None, row_wiki = None\<rparr>,
      \<lparr>row_w = Some ''Axle'', row_m = None, row_a = None, row_wiki = None\<rparr>] [])
     = {#''gear'', ''Axle''#}"
proof -
  let ?rows = "[\<lparr>row_w = Some ''gear'', row_m = None, row_a = None, row_wiki = None\<rparr>,
      \<lparr>row_w = Some [], row_m = None, row_a = None, row_wiki = None\<rparr>,
      \<lparr>row_w = None, row_m = None, row_a = None, row_wiki = None\<rparr>,
      \<lparr>row_w = Some ''Axle'', row_m = None, row_a = None, row_wiki = None\<rparr>]"
  have few: "length (List.map_filter row_w ?rows) \<le> 10000" by code_simp
  have terms: "filter (\<lambda>t. t \<noteq> []) (List.map_filter row_w ?rows) = [''gear'', ''Axle'']"
    by code_simp
  note inst = fetchWords_list_all [of ordinalCompare ?rows]
  have "mset (fetchWords ordinalCompare ?rows []) = mset [''gear'', ''Axle'']"
    using inst few unfolding terms by blast
  then show ?thesis using inst few consistent_ordinalCompare by simp
qed

text \<open>
  Claim C3 as the specification states it makes the order the ordinal one, free of any
  collation. The order is the one of \<open>localeCompare\<close>: on a host whose collation puts
  the underscore before the digits, "beam_2" comes before "beam1", which is not the
  ordinal order of the two, and on a host that compares code units it comes after.
\<close>

theorem fetchWords_not_ordinal_counterexample:
  "consistent punctuationFirstCompare
   \<and> fetchWords punctuationFirstCompare
     [\<lparr>row_w = Some ''beam1'', row_m = None, row_a = None, row_wiki = None\<rparr>,
      \<lparr>row_w = Some ''beam_2'', row_m = None, row_a = None, row_wiki = None\<rparr>] []
     = [''beam_2'', ''beam1'']
   \<and> \<not> sorted_wrt (\<lambda>x y. toLowerCase x \<le> toLowerCase y) [''beam_2'', ''beam1'']
   \<and> fetchWords ordinalCompare
     [\<lparr>row_w = Some ''beam1'', row_m = None, row_a = None, row_wiki = None\<rparr>,
      \<lparr>row_w = Some ''beam_2'', row_m = None, row_a = None, row_wiki = None\<rparr>] []
     = [''beam1'', ''beam_2'']"
proof -
  let ?rows = "[\<lparr>row_w = Some ''beam1'', row_m = None, row_a = None, row_wiki = None\<rparr>,
      \<lparr>row_w = Some ''beam_2'', row_m = None, row_a = None, row_wiki = None\<rparr>]"
  have a: "fetchWords punctuationFirstCompare ?rows [] = [''beam_2'', ''beam1'']" by code_simp
  have b: "\<not> sorted_wrt (\<lambda>x y. toLowerCase x \<le> toLowerCase y) [''beam_2'', ''beam1'']"
    by code_simp
  have c: "fetchWords ordinalCompare ?rows [] = [''beam1'', ''beam_2'']" by code_simp
  show ?thesis using consistent_punctuationFirstCompare a b c by blast
qed

text \<open>
  Claim C3, as amended. The terms \<open>fetchWords\<close> returns, with a search text or without
  one, are in ascending order of their lower-case forms under the collation of the host,
  whenever that is a consistent comparator; the order is the ordinal one when the host
  compares code units.
\<close>

theorem fetchWords_order_is_host_collation:
  "(consistent lc \<longrightarrow>
      sorted_wrt (\<lambda>x y. lc (toLowerCase x) (toLowerCase y) \<le> 0) (fetchWords lc rows search)) \<and>
   sorted_wrt (\<lambda>x y. toLowerCase x \<le> toLowerCase y) (fetchWords ordinalCompare rows search)"
proof -
  have "sorted_wrt (\<lambda>x y. ordinalCompare (toLowerCase x) (toLowerCase y) \<le> 0)
      (fetchWords ordinalCompare rows search)"
    using fetchWords_sorted_by [OF consistent_ordinalCompare] .
  moreover have "(\<lambda>x y. ordinalCompare (toLowerCase x) (toLowerCase y) \<le> 0) =
      (\<lambda>x y. toLowerCase x \<le> toLowerCase y)"
    by (intro ext) (auto simp: ordinalCompare_def three_way_def)
  ultimately show ?thesis using fetchWords_sorted_by [of lc rows search] by simp
qed

theorem fetchWords_order_is_host_collation_witness:
  "consistent punctuationFirstCompare
   \<and> sorted_wrt (\<lambda>x y. punctuationFirstCompare (toLowerCase x) (toLowerCase y) \<le> 0)
       (fetchWords punctuationFirstCompare
         [\<lparr>row_w = Some ''beam1'', row_m = None, row_a = None, row_wiki = None\<rparr>,
          \<lparr>row_w = Some ''beam_2'', row_m = None, row_a = None, row_wiki = None\<rparr>,
          \<lparr>row_w = Some ''Axle'', row_m = None, row_a = None, row_wiki = None\<rparr>] [])
   \<and> fetchWords punctuationFirstCompare
         [\<lparr>row_w = Some ''beam1'', row_m = None, row_a = None, row_wiki = None\<rparr>,
          \<lparr>row_w = Some ''beam_2'', row_m = None, row_a = None, row_wiki = None\<rparr>,
          \<lparr>row_w = Some ''Axle'', row_m = None, row_a = None, row_wiki = None\<rparr>] []
      = [''Axle'', ''beam_2'', ''beam1'']"
proof -
  let ?rows = "[\<lparr>row_w = Some ''beam1'', row_m = None, row_a = None, row_wiki = None\<rparr>,
          \<lparr>row_w = Some ''beam_2'', row_m = None, row_a = None, row_wiki = None\<rparr>,
          \<lparr>row_w = Some ''Axle'', row_m = None, row_a = None, row_wiki = None\<rparr>]"
  have ev: "fetchWords punctuationFirstCompare ?rows [] = [''Axle'', ''beam_2'', ''beam1'']"
    by code_simp
  show ?thesis
    using fetchWords_order_is_host_collation [of punctuationFirstCompare ?rows "[]"]
      consistent_punctuationFirstCompare ev by blast
qed

section \<open>The math stash: proofs\<close>

subsection \<open>Decimal numbers\<close>

lemma digit_table: "map digit [0..<10] = ''0123456789''"
  by code_simp

lemma digit_nth: "d < 10 \<Longrightarrow> digit d = ''0123456789'' ! d"
  using nth_map [of d "[0..<10]" digit] unfolding digit_table by simp

lemma digit_less_10: "d < 10 \<Longrightarrow> is_digit (digit d)"
  unfolding is_digit_def using digit_nth [of d] nth_mem [of d "''0123456789''"] by simp

lemma digit_inj: "a < 10 \<Longrightarrow> b < 10 \<Longrightarrow> digit a = digit b \<Longrightarrow> a = b"
proof -
  assume ab: "a < 10" "b < 10" and eq: "digit a = digit b"
  have "distinct ''0123456789''" by simp
  then show ?thesis
    using nth_eq_iff_index_eq [of "''0123456789''" a b] ab eq by (simp add: digit_nth)
qed

lemma decimal_digits: "list_all is_digit (decimal n)"
proof (induction n rule: decimal.induct)
  case (1 n)
  show ?case
  proof (cases "n < 10")
    case True
    then show ?thesis by (simp add: decimal.simps [of n] digit_less_10)
  next
    case False
    then show ?thesis using 1 by (simp add: decimal.simps [of n] digit_less_10)
  qed
qed

lemma decimal_nonempty: "decimal n \<noteq> []"
  by (subst decimal.simps) simp

lemma decimal_inj: "decimal a = decimal b \<Longrightarrow> a = b"
proof (induction a arbitrary: b rule: decimal.induct)
  case (1 a)
  show ?case
  proof (cases "a < 10")
    case True
    then have da: "decimal a = [digit a]" by (simp add: decimal.simps [of a])
    show ?thesis
    proof (cases "b < 10")
      case True
      then show ?thesis using da "1.prems" \<open>a < 10\<close> digit_inj
        by (simp add: decimal.simps [of b])
    next
      case False
      then have "length (decimal b) \<ge> 2"
        using decimal_nonempty [of "b div 10"]
        by (simp add: decimal.simps [of b] Suc_le_eq)
      then show ?thesis using da "1.prems" by simp
    qed
  next
    case False
    then have da: "decimal a = decimal (a div 10) @ [digit (a mod 10)]"
      by (simp add: decimal.simps [of a])
    show ?thesis
    proof (cases "b < 10")
      case True
      then have "decimal b = [digit b]" by (simp add: decimal.simps [of b])
      then show ?thesis using da "1.prems" decimal_nonempty [of "a div 10"] by simp
    next
      case b: False
      then have db: "decimal b = decimal (b div 10) @ [digit (b mod 10)]"
        by (simp add: decimal.simps [of b])
      from da db "1.prems" have eq: "decimal (a div 10) = decimal (b div 10)"
        "digit (a mod 10) = digit (b mod 10)" by auto
      from "1.IH" [OF False eq(1)] have "a div 10 = b div 10" .
      moreover have "a mod 10 = b mod 10" using eq(2) by (intro digit_inj) auto
      ultimately show ?thesis by (metis div_mult_mod_eq)
    qed
  qed
qed

lemma digits_then_dash:
  assumes "list_all is_digit a" "list_all is_digit b"
    and "prefix (a @ ''-->'') (b @ ''-->'' @ v)"
  shows "a = b"
  using assms
proof (induction a arbitrary: b)
  case Nil
  then show ?case by (cases b) (auto simp: is_digit_def)
next
  case (Cons x a)
  then show ?case by (cases b) (auto simp: is_digit_def)
qed

subsection \<open>Placeholders\<close>

lemma is_digit_not_mark:
  "is_digit c \<Longrightarrow> c \<noteq> CHR ''<'' \<and> c \<noteq> CHR ''$'' \<and> c \<noteq> CHR ''-''"
  by (auto simp: is_digit_def)

lemma placeholder_shape:
  "\<exists>body. placeholder i = CHR ''<'' # body \<and> CHR ''<'' \<notin> set body \<and> CHR ''$'' \<notin> set body"
proof -
  have "CHR ''<'' \<notin> set (decimal i)" "CHR ''$'' \<notin> set (decimal i)"
    using decimal_digits [of i] is_digit_not_mark by (auto simp: list_all_iff)
  then show ?thesis by (simp add: placeholder_def)
qed

lemma placeholder_no_dollar: "CHR ''$'' \<notin> set (placeholder i)"
  using placeholder_shape [of i] by auto

lemma placeholder_nonempty: "placeholder i \<noteq> []"
  by (simp add: placeholder_def)

lemma placeholder_prefix_iff: "prefix (placeholder i) (placeholder k @ v) \<longleftrightarrow> i = k"
proof
  assume "prefix (placeholder i) (placeholder k @ v)"
  then have "prefix (decimal i @ ''-->'') (decimal k @ ''-->'' @ v)"
    by (simp add: placeholder_def)
  then have "decimal i = decimal k"
    using digits_then_dash [OF decimal_digits decimal_digits] by blast
  then show "i = k" by (rule decimal_inj)
next
  assume "i = k"
  then show "prefix (placeholder i) (placeholder k @ v)" by simp
qed

lemma marker_prefix_placeholder: "prefix marker_prefix (placeholder i)"
  by (simp add: marker_prefix_def placeholder_def)

subsection \<open>Counting occurrences\<close>

lemma occurrences_not_sublist: "\<not> sublist p t \<Longrightarrow> occurrences p t = 0"
  by (induction t) (auto simp: sublist_Cons_right)

lemma occurrences_unmarked: "unmarked t \<Longrightarrow> occurrences (placeholder i) t = 0"
proof -
  assume "unmarked t"
  then have "\<not> sublist (placeholder i) t"
    unfolding unmarked_def
    by (meson marker_prefix_placeholder prefix_imp_sublist sublist_order.order_trans)
  then show ?thesis by (rule occurrences_not_sublist)
qed

lemma prefix_no_straddle:
  assumes "c \<notin> set (tl p)" and "w \<noteq> []"
  shows "prefix p (w @ c # v) \<longleftrightarrow> prefix p w"
proof
  assume "prefix p (w @ c # v)"
  then have "prefix p w \<or> (\<exists>z. p = w @ z \<and> prefix z (c # v))"
    by (simp add: prefix_append)
  then show "prefix p w"
  proof
    assume "prefix p w"
    then show ?thesis .
  next
    assume "\<exists>z. p = w @ z \<and> prefix z (c # v)"
    then obtain z where z: "p = w @ z" "prefix z (c # v)" by blast
    show ?thesis
    proof (cases z)
      case Nil
      then show ?thesis using z by simp
    next
      case (Cons a z')
      then have "a = c" using z(2) by simp
      then have "c \<in> set (tl p)" using z(1) Cons assms(2) by (cases w) auto
      with assms(1) show ?thesis by simp
    qed
  qed
next
  assume "prefix p w"
  then show "prefix p (w @ c # v)" by (simp add: prefix_prefix)
qed

lemma occurrences_split_at:
  assumes "c \<notin> set (tl p)" and "p \<noteq> []"
  shows "occurrences p (u @ c # v) = occurrences p u + occurrences p (c # v)"
proof (induction u)
  case Nil
  then show ?case using assms(2) by simp
next
  case (Cons a u)
  have "prefix p ((a # u) @ c # v) \<longleftrightarrow> prefix p (a # u)"
    by (rule prefix_no_straddle [OF assms(1)]) simp
  then show ?case using Cons by simp
qed

lemma occurrences_skip:
  assumes "p = x # p'" and "x \<notin> set w"
  shows "occurrences p (w @ v) = occurrences p v"
  using assms(2)
proof (induction w)
  case Nil
  then show ?case by simp
next
  case (Cons a w)
  then have "\<not> prefix p (a # w @ v)" using assms(1) by auto
  then show ?case using Cons by simp
qed

lemma occurrences_dollar:
  assumes "CHR ''$'' \<notin> set p" and "p \<noteq> []"
  shows "occurrences p (u @ CHR ''$'' # v) = occurrences p u + occurrences p v"
proof -
  obtain x p' where p: "p = x # p'" using assms(2) by (cases p) auto
  have "CHR ''$'' \<notin> set (tl p)" using assms(1) p by simp
  then have "occurrences p (u @ CHR ''$'' # v) = occurrences p u + occurrences p (CHR ''$'' # v)"
    using assms(2) by (rule occurrences_split_at)
  moreover have "\<not> prefix p (CHR ''$'' # v)" using assms(1) p by auto
  ultimately show ?thesis by simp
qed

lemma occurrences_placeholder:
  "occurrences (placeholder i) (u @ placeholder k @ v) =
     occurrences (placeholder i) u + (if i = k then 1 else 0) + occurrences (placeholder i) v"
proof -
  obtain bi where bi: "placeholder i = CHR ''<'' # bi" "CHR ''<'' \<notin> set bi"
    using placeholder_shape [of i] by blast
  obtain bk where bk: "placeholder k = CHR ''<'' # bk" "CHR ''<'' \<notin> set bk"
    using placeholder_shape [of k] by blast
  have "occurrences (placeholder i) (u @ placeholder k @ v) =
      occurrences (placeholder i) u + occurrences (placeholder i) (CHR ''<'' # bk @ v)"
    using occurrences_split_at [of "CHR ''<''" "placeholder i" u "bk @ v"] bi bk by simp
  also have "occurrences (placeholder i) (CHR ''<'' # bk @ v) =
      (if prefix (placeholder i) (placeholder k @ v) then 1 else 0) +
      occurrences (placeholder i) (bk @ v)"
    using bk by simp
  also have "occurrences (placeholder i) (bk @ v) = occurrences (placeholder i) v"
    using occurrences_skip [OF bi(1) bk(2)] .
  finally show ?thesis by (simp add: placeholder_prefix_iff)
qed

subsection \<open>What the two searches find\<close>

lemma find_dollars_Some: "find_dollars t = Some (b, r) \<Longrightarrow> t = b @ ''$$'' @ r"
proof (induction t arbitrary: b rule: find_dollars.induct)
  case (1 c d cs)
  show ?case
  proof (cases "c = CHR ''$'' \<and> d = CHR ''$''")
    case True
    then show ?thesis using "1.prems" by simp
  next
    case False
    then have "map_option (\<lambda>(before, rest). (c # before, rest)) (find_dollars (d # cs)) = Some (b, r)"
      using "1.prems" by (auto split: if_splits)
    then obtain b' where "find_dollars (d # cs) = Some (b', r)" "b = c # b'"
      by (cases "find_dollars (d # cs)") auto
    then show ?thesis using "1.IH" [OF False] by simp
  qed
qed simp_all

lemma find_dollar_Some: "find_dollar t = Some (b, r) \<Longrightarrow> t = b @ ''$'' @ r"
proof -
  let ?P = "\<lambda>c. c \<noteq> CHR ''$''"
  assume "find_dollar t = Some (b, r)"
  then obtain x where x: "dropWhile ?P t = x # r" and b: "b = takeWhile ?P t"
    by (auto simp: find_dollar_def split: list.splits)
  have "\<not> ?P (hd (dropWhile ?P t))"
    by (rule hd_dropWhile) (simp add: x)
  then have "x = CHR ''$''" using x by simp
  moreover have "t = takeWhile ?P t @ dropWhile ?P t" by simp
  ultimately show ?thesis using x b by simp
qed

lemma occurrences_Nil: "p \<noteq> [] \<Longrightarrow> occurrences p [] = 0"
  by simp

lemma occurrences_dollars:
  assumes "CHR ''$'' \<notin> set p" and "p \<noteq> []"
  shows "occurrences p (u @ ''$$'' @ v) = occurrences p u + occurrences p v"
proof -
  have "occurrences p (u @ CHR ''$'' # (CHR ''$'' # v)) =
      occurrences p u + occurrences p ([] @ CHR ''$'' # v)"
    using occurrences_dollar [OF assms] by simp
  also have "occurrences p ([] @ CHR ''$'' # v) = occurrences p [] + occurrences p v"
    by (rule occurrences_dollar [OF assms])
  finally show ?thesis using assms(2) by simp
qed

lemma occurrences_displayMatches:
  assumes "CHR ''$'' \<notin> set p" and "p \<noteq> []"
  shows "occurrences p s =
     sum_list (map (occurrences p) (texts (displayMatches s))) +
     sum_list (map (occurrences p) (captures (displayMatches s)))"
proof (induction s rule: displayMatches.induct)
  case (1 s)
  show ?case
  proof (cases "find_dollars s")
    case None
    then show ?thesis by (simp add: displayMatches.simps [of s])
  next
    case (Some x)
    obtain before rest where x: "x = (before, rest)" by (cases x)
    show ?thesis
    proof (cases "find_dollars rest")
      case None
      then show ?thesis using Some x by (simp add: displayMatches.simps [of s])
    next
      case inner: (Some y)
      obtain captured rest' where y: "y = (captured, rest')" by (cases y)
      have dm: "displayMatches s = Match before captured (displayMatches rest')"
        using Some x inner y by (simp add: displayMatches.simps [of s])
      have s: "s = before @ ''$$'' @ captured @ ''$$'' @ rest'"
        using find_dollars_Some Some x inner y by blast
      have "occurrences p s = occurrences p before + occurrences p (captured @ ''$$'' @ rest')"
        by (subst s) (rule occurrences_dollars [OF assms])
      also have "occurrences p (captured @ ''$$'' @ rest') =
          occurrences p captured + occurrences p rest'"
        by (rule occurrences_dollars [OF assms])
      finally have "occurrences p s =
          occurrences p before + occurrences p captured + occurrences p rest'"
        by simp
      moreover have "occurrences p rest' =
          sum_list (map (occurrences p) (texts (displayMatches rest'))) +
          sum_list (map (occurrences p) (captures (displayMatches rest')))"
        using "1.IH" Some x inner y by simp
      ultimately show ?thesis by (simp add: dm)
    qed
  qed
qed

lemma occurrences_inlineMatches:
  assumes "CHR ''$'' \<notin> set p" and "p \<noteq> []"
  shows "occurrences p (skipped @ s) =
     sum_list (map (occurrences p) (texts (inlineMatches skipped s))) +
     sum_list (map (occurrences p) (captures (inlineMatches skipped s)))"
proof (induction skipped s rule: inlineMatches.induct)
  case (1 skipped s)
  show ?case
  proof (cases "find_dollar s")
    case None
    then show ?thesis by (simp add: inlineMatches.simps [of skipped s])
  next
    case (Some x)
    obtain before rest where x: "x = (before, rest)" by (cases x)
    show ?thesis
    proof (cases "find_dollar rest")
      case None
      then show ?thesis using Some x by (simp add: inlineMatches.simps [of skipped s])
    next
      case inner: (Some y)
      obtain captured rest' where y: "y = (captured, rest')" by (cases y)
      have s: "s = before @ ''$'' @ captured @ ''$'' @ rest'"
        using find_dollar_Some Some x inner y by blast
      show ?thesis
      proof (cases "captured = []")
        case True
        have im: "inlineMatches skipped s =
            inlineMatches (skipped @ before @ ''$'') (CHR ''$'' # rest')"
          using Some x inner y True by (simp add: inlineMatches.simps [of skipped s])
        have "skipped @ s = (skipped @ before @ ''$'') @ CHR ''$'' # rest'"
          using s True by simp
        then show ?thesis using "1.IH"(1) Some x inner y True im by simp
      next
        case False
        have im: "inlineMatches skipped s =
            Match (skipped @ before) captured (inlineMatches [] rest')"
          using Some x inner y False by (simp add: inlineMatches.simps [of skipped s])
        have split: "skipped @ s = (skipped @ before) @ CHR ''$'' # (captured @ CHR ''$'' # rest')"
          using s by simp
        have "occurrences p (skipped @ s) =
            occurrences p (skipped @ before) + occurrences p (captured @ CHR ''$'' # rest')"
          unfolding split by (rule occurrences_dollar [OF assms])
        also have "occurrences p (captured @ CHR ''$'' # rest') =
            occurrences p captured + occurrences p rest'"
          by (rule occurrences_dollar [OF assms])
        also have "occurrences p rest' =
            sum_list (map (occurrences p) (texts (inlineMatches [] rest'))) +
            sum_list (map (occurrences p) (captures (inlineMatches [] rest')))"
          using "1.IH"(2) Some x inner y False by simp
        finally show ?thesis by (simp add: im)
      qed
    qed
  qed
qed

subsection \<open>The replacement\<close>

lemma array_set_at_end: "array_set xs (length xs) v = xs @ [Some v]"
  by (simp add: array_set_def)

lemma replace_matches_stashMath:
  assumes "replace_matches (stashMath d) ms st = (out, st')"
    and "counter st = length (replacements st)"
  shows "counter st' = counter st + length (captures ms) \<and>
     replacements st' = replacements st @
       map (\<lambda>c. Some \<lparr>formula = trim c, isDisplay = d\<rparr>) (captures ms) \<and>
     content st' = content st \<and>
     (\<forall>i. occurrences (placeholder i) out =
        sum_list (map (occurrences (placeholder i)) (texts ms)) +
        (if counter st \<le> i \<and> i < counter st' then 1 else 0))"
  using assms
proof (induction ms arbitrary: st out st')
  case (End u)
  then show ?case by simp
next
  case (Match u c ms)
  let ?st1 = "st\<lparr>counter := counter st + 1,
      replacements := array_set (replacements st) (counter st)
        \<lparr>formula = trim c, isDisplay = d\<rparr>\<rparr>"
  have cb: "stashMath d c st = (placeholder (counter st), ?st1)"
    by (simp add: stashMath_def Let_def)
  obtain out1 st2 where r: "replace_matches (stashMath d) ms ?st1 = (out1, st2)"
    by (cases "replace_matches (stashMath d) ms ?st1")
  have out: "out = u @ placeholder (counter st) @ out1" and st': "st' = st2"
    using Match.prems(1) cb r by auto
  have inv1: "counter ?st1 = length (replacements ?st1)"
    using Match.prems(2) by (simp add: array_set_at_end)
  note IH = Match.IH [OF r inv1]
  note IHc = IH [THEN conjunct1]
  note IHr = IH [THEN conjunct2, THEN conjunct1]
  note IHcon = IH [THEN conjunct2, THEN conjunct2, THEN conjunct1]
  note IHocc = IH [THEN conjunct2, THEN conjunct2, THEN conjunct2, rule_format]
  have rep1: "replacements ?st1 = replacements st @ [Some \<lparr>formula = trim c, isDisplay = d\<rparr>]"
    using Match.prems(2) by (simp add: array_set_at_end)
  have c1: "counter ?st1 = Suc (counter st)" by simp
  have cnt: "counter st' = counter st + length (captures (Match u c ms))"
    using IHc st' c1 by simp
  have rep: "replacements st' = replacements st @
       map (\<lambda>c. Some \<lparr>formula = trim c, isDisplay = d\<rparr>) (captures (Match u c ms))"
    using IHr st' rep1 by simp
  have con: "content st' = content st"
    using IHcon st' by simp
  have "occurrences (placeholder i) out =
        sum_list (map (occurrences (placeholder i)) (texts (Match u c ms))) +
        (if counter st \<le> i \<and> i < counter st' then 1 else 0)" for i
  proof -
    have "occurrences (placeholder i) out =
        occurrences (placeholder i) u + (if i = counter st then 1 else 0) +
        occurrences (placeholder i) out1"
      unfolding out by (rule occurrences_placeholder)
    also have "occurrences (placeholder i) out1 =
        sum_list (map (occurrences (placeholder i)) (texts ms)) +
        (if Suc (counter st) \<le> i \<and> i < counter st2 then 1 else 0)"
      using IHocc [of i] c1 by simp
    finally have "occurrences (placeholder i) out =
        occurrences (placeholder i) u + sum_list (map (occurrences (placeholder i)) (texts ms)) +
        ((if i = counter st then 1 else 0) +
         (if Suc (counter st) \<le> i \<and> i < counter st2 then 1 else 0))"
      by simp
    moreover have "counter st < counter st2" using IHc c1 by simp
    then have "(if i = counter st then 1 else 0) +
         (if Suc (counter st) \<le> i \<and> i < counter st2 then 1 else 0) =
         (if counter st \<le> i \<and> i < counter st' then 1 else (0::nat))"
      unfolding st' by (cases "i = counter st") auto
    ultimately show ?thesis by simp
  qed
  then have occ: "\<forall>i. occurrences (placeholder i) out =
        sum_list (map (occurrences (placeholder i)) (texts (Match u c ms))) +
        (if counter st \<le> i \<and> i < counter st' then 1 else 0)" by blast
  show ?case using cnt rep con occ by (intro conjI)
qed

subsection \<open>Trimming keeps a placeholder\<close>

lemma sublist_dropWhile_keep:
  assumes "\<not> P x" and "sublist (x # xs) t"
  shows "sublist (x # xs) (dropWhile P t)"
proof -
  from assms(2) obtain a b where t: "t = a @ (x # xs) @ b" by (auto simp: sublist_def)
  show ?thesis
  proof (cases "\<forall>y \<in> set a. P y")
    case True
    then have "dropWhile P t = (x # xs) @ b" using assms(1) t by (simp add: dropWhile_append)
    then show ?thesis by simp
  next
    case False
    then have "dropWhile P t = dropWhile P a @ (x # xs) @ b" using t by (auto simp: dropWhile_append)
    then show ?thesis by (metis sublist_appendI)
  qed
qed

lemma marker_prefix_ends: "marker_prefix = CHR ''<'' # ''!--knt-math-p''"
  "rev marker_prefix = CHR ''p'' # rev ''<!--knt-math-''"
  by (simp_all add: marker_prefix_def)

lemma unmarked_trim: "unmarked (trim c) \<Longrightarrow> unmarked c"
proof (rule ccontr)
  assume u: "unmarked (trim c)" and "\<not> unmarked c"
  then have "sublist marker_prefix c" by (simp add: unmarked_def)
  then have "sublist marker_prefix (dropWhile isWhiteSpace c)"
    unfolding marker_prefix_ends(1)
    by (rule sublist_dropWhile_keep [rotated]) (simp add: isWhiteSpace_def)
  then have "sublist (rev marker_prefix) (rev (dropWhile isWhiteSpace c))"
    by simp
  then have "sublist (rev marker_prefix) (dropWhile isWhiteSpace (rev (dropWhile isWhiteSpace c)))"
    unfolding marker_prefix_ends(2)
    by (rule sublist_dropWhile_keep [rotated]) (simp add: isWhiteSpace_def)
  then have "sublist marker_prefix (trim c)"
    unfolding trim_def by (simp add: sublist_rev_left)
  then show False using u by (simp add: unmarked_def)
qed

lemma sum_list_occurrences_zero:
  "list_all unmarked cs \<Longrightarrow> sum_list (map (occurrences (placeholder i)) cs) = 0"
  by (induction cs) (auto simp: occurrences_unmarked)

subsection \<open>The two passes together\<close>

lemma formatMeaning_stash_parts:
  obtains out1 st1 out2 st2 where
    "replace_matches (stashMath True) (displayMatches s)
       \<lparr>content = s, replacements = [], counter = 0\<rparr> = (out1, st1)"
    "replace_matches (stashMath False) (inlineMatches [] out1) (st1\<lparr>content := out1\<rparr>) = (out2, st2)"
    "formatMeaning_stash s = st2\<lparr>content := out2\<rparr>"
proof -
  obtain out1 st1 where a: "replace_matches (stashMath True) (displayMatches s)
       \<lparr>content = s, replacements = [], counter = 0\<rparr> = (out1, st1)"
    by (cases "replace_matches (stashMath True) (displayMatches s)
       \<lparr>content = s, replacements = [], counter = 0\<rparr>")
  obtain out2 st2 where b: "replace_matches (stashMath False) (inlineMatches [] out1)
      (st1\<lparr>content := out1\<rparr>) = (out2, st2)"
    by (cases "replace_matches (stashMath False) (inlineMatches [] out1) (st1\<lparr>content := out1\<rparr>)")
  have "formatMeaning_stash s = st2\<lparr>content := out2\<rparr>"
    using a b by (simp add: formatMeaning_stash_def stashDisplay_def stashInline_def)
  then show ?thesis using a b that by blast
qed

lemma formatMeaning_stash_no_holes:
  "list_all (\<lambda>r. r \<noteq> None) (replacements (formatMeaning_stash s)) \<and>
   counter (formatMeaning_stash s) = length (replacements (formatMeaning_stash s))"
proof -
  obtain out1 st1 out2 st2 where
    a: "replace_matches (stashMath True) (displayMatches s)
       \<lparr>content = s, replacements = [], counter = 0\<rparr> = (out1, st1)" and
    b: "replace_matches (stashMath False) (inlineMatches [] out1) (st1\<lparr>content := out1\<rparr>) = (out2, st2)" and
    f: "formatMeaning_stash s = st2\<lparr>content := out2\<rparr>"
    by (rule formatMeaning_stash_parts)
  note A = replace_matches_stashMath [OF a]
  have A': "counter st1 = length (captures (displayMatches s))"
    "replacements st1 = map (\<lambda>c. Some \<lparr>formula = trim c, isDisplay = True\<rparr>)
        (captures (displayMatches s))"
    using A by simp_all
  have inv: "counter (st1\<lparr>content := out1\<rparr>) = length (replacements (st1\<lparr>content := out1\<rparr>))"
    using A' by simp
  note B = replace_matches_stashMath [OF b inv]
  have B': "counter st2 = counter st1 + length (captures (inlineMatches [] out1))"
    "replacements st2 = replacements st1 @
       map (\<lambda>c. Some \<lparr>formula = trim c, isDisplay = False\<rparr>) (captures (inlineMatches [] out1))"
    using B by simp_all
  show ?thesis using A' B' f by (auto simp: list_all_iff)
qed

lemma formatMeaning_stash_occurrences:
  assumes "unmarked s"
    and "list_all (\<lambda>r. case r of None \<Rightarrow> True | Some m \<Rightarrow> unmarked (formula m))
           (replacements (formatMeaning_stash s))"
  shows "occurrences (placeholder i) (content (formatMeaning_stash s)) =
     (if i < length (replacements (formatMeaning_stash s)) then 1 else 0)"
proof -
  let ?p = "placeholder i"
  have pd: "CHR ''$'' \<notin> set ?p" "?p \<noteq> []"
    by (rule placeholder_no_dollar) (rule placeholder_nonempty)
  obtain out1 st1 out2 st2 where
    a: "replace_matches (stashMath True) (displayMatches s)
       \<lparr>content = s, replacements = [], counter = 0\<rparr> = (out1, st1)" and
    b: "replace_matches (stashMath False) (inlineMatches [] out1) (st1\<lparr>content := out1\<rparr>) = (out2, st2)" and
    f: "formatMeaning_stash s = st2\<lparr>content := out2\<rparr>"
    by (rule formatMeaning_stash_parts)
  let ?dm = "displayMatches s" and ?im = "inlineMatches [] out1"
  note A = replace_matches_stashMath [OF a]
  have A1: "counter st1 = length (captures ?dm)"
    and A2: "replacements st1 = map (\<lambda>c. Some \<lparr>formula = trim c, isDisplay = True\<rparr>) (captures ?dm)"
    and A3: "occurrences ?p out1 = sum_list (map (occurrences ?p) (texts ?dm)) +
        (if i < counter st1 then 1 else 0)"
    using A by simp_all
  have inv: "counter (st1\<lparr>content := out1\<rparr>) = length (replacements (st1\<lparr>content := out1\<rparr>))"
    using A1 A2 by simp
  note B = replace_matches_stashMath [OF b inv]
  have B1: "counter st2 = counter st1 + length (captures ?im)"
    and B2: "replacements st2 = replacements st1 @
       map (\<lambda>c. Some \<lparr>formula = trim c, isDisplay = False\<rparr>) (captures ?im)"
    and B3: "occurrences ?p out2 = sum_list (map (occurrences ?p) (texts ?im)) +
        (if counter st1 \<le> i \<and> i < counter st2 then 1 else 0)"
    using B by simp_all
  have "occurrences ?p s = 0" using assms(1) by (rule occurrences_unmarked)
  then have "sum_list (map (occurrences ?p) (texts ?dm)) = 0"
    using occurrences_displayMatches [OF pd, of s] by simp
  then have o1: "occurrences ?p out1 = (if i < counter st1 then 1 else 0)"
    using A3 by simp
  have "unmarked (trim c)" if "c \<in> set (captures ?im)" for c
  proof -
    have "Some \<lparr>formula = trim c, isDisplay = False\<rparr> \<in> set (replacements (formatMeaning_stash s))"
      using that unfolding f by (simp add: B2)
    then have "case Some \<lparr>formula = trim c, isDisplay = False\<rparr> of None \<Rightarrow> True
        | Some m \<Rightarrow> unmarked (formula m)"
      using assms(2) unfolding list_all_iff by blast
    then show ?thesis by simp
  qed
  then have "list_all (\<lambda>c. unmarked (trim c)) (captures ?im)"
    by (simp add: list_all_iff)
  then have "list_all unmarked (captures ?im)"
    by (auto simp: list_all_iff intro: unmarked_trim)
  then have "sum_list (map (occurrences ?p) (captures ?im)) = 0"
    by (rule sum_list_occurrences_zero)
  then have "sum_list (map (occurrences ?p) (texts ?im)) = occurrences ?p out1"
    using occurrences_inlineMatches [OF pd, of "[]" out1] by simp
  then have "occurrences ?p out2 = (if i < counter st1 then 1 else 0) +
      (if counter st1 \<le> i \<and> i < counter st2 then 1 else 0)"
    using B3 o1 by simp
  moreover have "counter st1 \<le> counter st2" using B1 by simp
  ultimately have "occurrences ?p out2 = (if i < counter st2 then 1 else 0)"
    by auto
  moreover have "length (replacements st2) = counter st2"
    using A1 A2 B1 B2 by simp
  ultimately show ?thesis using f by simp
qed

section \<open>The math stash: the recorded formulas and their placeholders\<close>

text \<open>
  Claim C2. For "Force ($F$) equals mass times acceleration: $$F = ma$$" the text handed
  to the markdown conversion holds exactly two different placeholders, each once (those
  of the numbers 0 and 1, and no other), and the math of the page, the spans in the order
  of the document, is two segments: first \<open>F\<close> in inline mode, then \<open>F = ma\<close> in display
  mode. The segments are the same when the text stands in a paragraph element.
\<close>

theorem formatMeaning_force_segments:
  "(\<forall>i. occurrences (placeholder i)
          (content (formatMeaning_stash ''Force ($F$) equals mass times acceleration: $$F = ma$$''))
        = (if i < 2 then 1 else 0))
   \<and> placeholder 0 \<noteq> placeholder 1
   \<and> mathSegments
        (restore
          (replacements (formatMeaning_stash ''Force ($F$) equals mass times acceleration: $$F = ma$$''))
          (content (formatMeaning_stash ''Force ($F$) equals mass times acceleration: $$F = ma$$'')))
       = [\<lparr>formula = ''F'', isDisplay = False\<rparr>, \<lparr>formula = ''F = ma'', isDisplay = True\<rparr>]
   \<and> mathSegments
        (restore
          (replacements (formatMeaning_stash ''Force ($F$) equals mass times acceleration: $$F = ma$$''))
          (''<p>'' @
           content (formatMeaning_stash ''Force ($F$) equals mass times acceleration: $$F = ma$$'')
           @ ''</p>''))
       = [\<lparr>formula = ''F'', isDisplay = False\<rparr>, \<lparr>formula = ''F = ma'', isDisplay = True\<rparr>]"
proof -
  let ?s = "''Force ($F$) equals mass times acceleration: $$F = ma$$''"
  have u: "unmarked ?s" by code_simp
  have f: "list_all (\<lambda>r. case r of None \<Rightarrow> True | Some m \<Rightarrow> unmarked (formula m))
           (replacements (formatMeaning_stash ?s))"
    by code_simp
  have n: "length (replacements (formatMeaning_stash ?s)) = 2" by code_simp
  have occ: "\<forall>i. occurrences (placeholder i) (content (formatMeaning_stash ?s)) =
      (if i < 2 then 1 else 0)"
    using formatMeaning_stash_occurrences [OF u f] unfolding n by blast
  have d: "placeholder 0 \<noteq> placeholder 1" by code_simp
  have m: "mathSegments (restore (replacements (formatMeaning_stash ?s))
      (content (formatMeaning_stash ?s)))
      = [\<lparr>formula = ''F'', isDisplay = False\<rparr>, \<lparr>formula = ''F = ma'', isDisplay = True\<rparr>]"
    by code_simp
  have m': "mathSegments (restore (replacements (formatMeaning_stash ?s))
      (''<p>'' @ content (formatMeaning_stash ?s) @ ''</p>''))
      = [\<lparr>formula = ''F'', isDisplay = False\<rparr>, \<lparr>formula = ''F = ma'', isDisplay = True\<rparr>]"
    by code_simp
  show ?thesis using occ d m m' by blast
qed

text \<open>
  Claim C8 as the specification states it holds of every text. It fails when an inline
  formula encloses a display formula: in \<open>$a $$b$$ c$\<close> the placeholder of \<open>b\<close> ends up
  inside the recorded inline formula and nowhere in the text left over. It also fails
  when the text itself holds a placeholder: in \<open><!--knt-math-p0--> $x$\<close> the placeholder
  number 0 then stands twice.
\<close>

theorem formatMeaning_stash_bijection_counterexample:
  "unmarked ''$a $$b$$ c$''
   \<and> formatMeaning_stash ''$a $$b$$ c$'' =
     \<lparr>content = ''<!--knt-math-p1-->'',
      replacements = [Some \<lparr>formula = ''b'', isDisplay = True\<rparr>,
                      Some \<lparr>formula = ''a <!--knt-math-p0--> c'', isDisplay = False\<rparr>],
      counter = 2\<rparr>
   \<and> occurrences (placeholder 0) (content (formatMeaning_stash ''$a $$b$$ c$'')) = 0
   \<and> formatMeaning_stash ''<!--knt-math-p0--> $x$'' =
     \<lparr>content = ''<!--knt-math-p0--> <!--knt-math-p0-->'',
      replacements = [Some \<lparr>formula = ''x'', isDisplay = False\<rparr>],
      counter = 1\<rparr>
   \<and> occurrences (placeholder 0) (content (formatMeaning_stash ''<!--knt-math-p0--> $x$'')) = 2"
  by code_simp

text \<open>
  Claim C8, as amended. Let the text hold no opening of a placeholder
  (\<open><!--knt-math-p\<close>), and let no recorded formula hold one (no inline formula encloses
  a display formula). Then in the text the stash hands to the markdown conversion every
  placeholder whose number is below the number of recorded formulas stands exactly once,
  and no other placeholder stands in it; every number below that count has a recorded
  formula, and the counter equals the count.
\<close>

theorem formatMeaning_stash_bijection:
  assumes "unmarked s"
    and "list_all (\<lambda>r. case r of None \<Rightarrow> True | Some m \<Rightarrow> unmarked (formula m))
           (replacements (formatMeaning_stash s))"
  shows "occurrences (placeholder i) (content (formatMeaning_stash s)) =
       (if i < length (replacements (formatMeaning_stash s)) then 1 else 0)
     \<and> list_all (\<lambda>r. r \<noteq> None) (replacements (formatMeaning_stash s))
     \<and> counter (formatMeaning_stash s) = length (replacements (formatMeaning_stash s))"
  using formatMeaning_stash_occurrences [OF assms] formatMeaning_stash_no_holes [of s]
  by simp

theorem formatMeaning_stash_bijection_witness:
  "unmarked ''Torque $T$ is $$T = F r$$, power $$P = T w$$''
   \<and> replacements (formatMeaning_stash ''Torque $T$ is $$T = F r$$, power $$P = T w$$'') =
       [Some \<lparr>formula = ''T = F r'', isDisplay = True\<rparr>,
        Some \<lparr>formula = ''P = T w'', isDisplay = True\<rparr>,
        Some \<lparr>formula = ''T'', isDisplay = False\<rparr>]
   \<and> content (formatMeaning_stash ''Torque $T$ is $$T = F r$$, power $$P = T w$$'') =
       ''Torque <!--knt-math-p2--> is <!--knt-math-p0-->, power <!--knt-math-p1-->''
   \<and> occurrences (placeholder 0)
        (content (formatMeaning_stash ''Torque $T$ is $$T = F r$$, power $$P = T w$$'')) = 1
   \<and> occurrences (placeholder 1)
        (content (formatMeaning_stash ''Torque $T$ is $$T = F r$$, power $$P = T w$$'')) = 1
   \<and> occurrences (placeholder 2)
        (content (formatMeaning_stash ''Torque $T$ is $$T = F r$$, power $$P = T w$$'')) = 1
   \<and> occurrences (placeholder 3)
        (content (formatMeaning_stash ''Torque $T$ is $$T = F r$$, power $$P = T w$$'')) = 0"
proof -
  let ?s = "''Torque $T$ is $$T = F r$$, power $$P = T w$$''"
  have u: "unmarked ?s" by code_simp
  have r: "replacements (formatMeaning_stash ?s) =
       [Some \<lparr>formula = ''T = F r'', isDisplay = True\<rparr>,
        Some \<lparr>formula = ''P = T w'', isDisplay = True\<rparr>,
        Some \<lparr>formula = ''T'', isDisplay = False\<rparr>]" by code_simp
  have c: "content (formatMeaning_stash ?s) =
       ''Torque <!--knt-math-p2--> is <!--knt-math-p0-->, power <!--knt-math-p1-->''"
    by code_simp
  have f: "list_all (\<lambda>r. case r of None \<Rightarrow> True | Some m \<Rightarrow> unmarked (formula m))
           (replacements (formatMeaning_stash ?s))"
    by code_simp
  note inst = formatMeaning_stash_bijection [OF u f]
  have "occurrences (placeholder 0) (content (formatMeaning_stash ?s)) = 1"
    "occurrences (placeholder 1) (content (formatMeaning_stash ?s)) = 1"
    "occurrences (placeholder 2) (content (formatMeaning_stash ?s)) = 1"
    "occurrences (placeholder 3) (content (formatMeaning_stash ?s)) = 0"
    using inst [of 0] inst [of 1] inst [of 2] inst [of 3] unfolding r by simp_all
  then show ?thesis using u r c by blast
qed

end
